theory Spec2Isabelle
  imports Complex_Main "HOL-Library.AList"
begin

section \<open>Python values, exceptions and list access\<close>

text \<open>
  The exceptions the modelled code can raise. \<open>NotLeader\<close> stands for the
  \<^verbatim>\<open>Exception("isCrashed or is not Leader")\<close> of \<^verbatim>\<open>server.py\<close>.
\<close>

datatype error = AssertionError | IndexError | ValueError | KeyError | AttributeError | NotLeader

text \<open>A call either returns a value or raises.\<close>

datatype 'a outcome = Return 'a | Raise error

type_synonym hash = string

text \<open>A command is the parameter triple of \<^verbatim>\<open>updatefile\<close>: (filename, version, blocklist).\<close>

type_synonym cmd = "string \<times> int \<times> hash list"

text \<open>A log entry is \<^verbatim>\<open>(term, cmd)\<close>.\<close>

type_synonym entry = "int \<times> cmd"

text \<open>
  \<^verbatim>\<open>xs[i]\<close>: an index below zero counts from the end, an index outside
  \<open>[-len, len)\<close> raises IndexError (\<open>None\<close> here).
\<close>

definition py_get :: "'a list \<Rightarrow> int \<Rightarrow> 'a option" where
  "py_get xs i =
     (if 0 \<le> i \<and> i < int (length xs) then Some (xs ! nat i)
      else if i < 0 \<and> - int (length xs) \<le> i then Some (xs ! nat (int (length xs) + i))
      else None)"

text \<open>
  The position at which the slice \<^verbatim>\<open>xs[i:]\<close> starts: a negative \<open>i\<close> counts from
  the end, and the result is clamped to \<open>[0, len]\<close>. Slices never raise.
\<close>

definition py_slice_from :: "'a list \<Rightarrow> int \<Rightarrow> nat" where
  "py_slice_from xs i =
     (if i < 0 then nat (int (length xs) + i) else min (nat i) (length xs))"

text \<open>\<^verbatim>\<open>range(a, b)\<close> and \<^verbatim>\<open>range(a, b, -1)\<close>.\<close>

definition py_range :: "int \<Rightarrow> int \<Rightarrow> int list" where
  "py_range a b = [a ..  b - 1]"

definition py_range_down :: "int \<Rightarrow> int \<Rightarrow> int list" where
  "py_range_down a b = rev [b + 1 .. a]"

section \<open>SurfStore: the file-info store (\<^verbatim>\<open>surfstore.py\<close>)\<close>

text \<open>
  \<^verbatim>\<open>file_infos\<close> is a dict \<^verbatim>\<open>{file_name: [version, [hash]]}\<close>, kept as an association
  list in insertion order. The block store plays no part in the replicated path and is
  left out.
\<close>

type_synonym file_infos = "(string \<times> (int \<times> hash list)) list"

text \<open>
  \<^verbatim>\<open>SurfStore.updatefile\<close>: a version that is not the successor of the stored one gives
  False; creating a file with a version other than 1 fails the assertion; otherwise the
  entry is written.
\<close>

definition surf_updatefile ::
  "file_infos \<Rightarrow> string \<Rightarrow> int \<Rightarrow> hash list \<Rightarrow> (bool \<times> file_infos) outcome" where
  "surf_updatefile fi filename version blocklist =
     (case map_of fi filename of
        Some (v, bl) \<Rightarrow>
          if version \<noteq> v + 1 then Return (False, fi)
          else Return (True, AList.update filename (version, blocklist) fi)
      | None \<Rightarrow>
          if version \<noteq> 1 then Raise AssertionError
          else Return (True, AList.update filename (version, blocklist) fi))"

section \<open>The replica (\<^verbatim>\<open>server.py\<close>) and its roles (\<^verbatim>\<open>state.py\<close>)\<close>

text \<open>
  The role objects. A Follower carries \<^verbatim>\<open>received_reponse\<close>, a Leader carries the
  dicts \<^verbatim>\<open>next_indexes\<close> and \<^verbatim>\<open>match_indexes\<close> (peer id to index, in insertion order).
  \<^verbatim>\<open>self.state = None\<close> is the crashed replica.
\<close>

type_synonym index_map = "(int \<times> int) list"

datatype role = Follower bool | Candidate | Leader index_map index_map

datatype role_class = FollowerC | CandidateC | LeaderC

text \<open>
  \<^verbatim>\<open>SurfstoreServer\<close>. \<open>lock\<close> is True while \<^verbatim>\<open>self.lock\<close> is held; \<open>proxies\<close> holds the
  keys of the proxy dict in iteration order. The \<^verbatim>\<open>file_info_lock\<close> is only ever taken
  and released around a single store access and is not represented.
\<close>

record server =
  surfstore :: file_infos
  num_servers :: int
  proxies :: "int list"
  server_id :: int
  current_term :: int
  voted_for :: "int option"
  logs :: "entry list"
  commit_index :: int
  last_applied :: int
  lock :: bool
  num_up :: int
  is_crashed :: bool
  state :: "role option"

text \<open>\<^verbatim>\<open>State.__init__\<close>: \<^verbatim>\<open>self.majority = self.server.num_servers // 2 + 1\<close>.\<close>

definition majority :: "server \<Rightarrow> int" where
  "majority s = num_servers s div 2 + 1"

text \<open>The state of a replica after \<^verbatim>\<open>SurfstoreServer.__init__\<close> (crashed by default).\<close>

definition init_server :: "int list \<Rightarrow> int \<Rightarrow> int \<Rightarrow> server" where
  "init_server ps i n =
     \<lparr>surfstore = [], num_servers = n, proxies = ps, server_id = i, current_term = 0,
      voted_for = None, logs = [], commit_index = 0, last_applied = 0, lock = False,
      num_up = 1, is_crashed = True, state = None\<rparr>"

text \<open>The constructors of the three role classes.\<close>

definition new_role :: "server \<Rightarrow> role_class \<Rightarrow> role" where
  "new_role s c =
     (case c of
        FollowerC \<Rightarrow> Follower False
      | CandidateC \<Rightarrow> Candidate
      | LeaderC \<Rightarrow>
          Leader (map (\<lambda>p. (p, int (length (logs s)) + 1)) (filter (\<lambda>p. p \<noteq> server_id s) (proxies s)))
                 (map (\<lambda>p. (p, 0)) (filter (\<lambda>p. p \<noteq> server_id s) (proxies s))))"

definition transit_state :: "server \<Rightarrow> role_class option \<Rightarrow> server" where
  "transit_state s c =
     (case c of None \<Rightarrow> s\<lparr>state := None\<rparr> | Some k \<Rightarrow> s\<lparr>state := Some (new_role s k)\<rparr>)"

definition isLeader :: "server \<Rightarrow> bool" where
  "isLeader s = (case state s of Some (Leader nx mt) \<Rightarrow> True | _ \<Rightarrow> False)"

text \<open>
  \<^verbatim>\<open>crash\<close> and \<^verbatim>\<open>restore\<close> run their body under \<^verbatim>\<open>with self.lock\<close>: they start only
  when the lock is free and leave it free (the guard is in the step relation below).
\<close>

definition crash :: "server \<Rightarrow> server" where
  "crash s = transit_state (s\<lparr>is_crashed := True\<rparr>) None"

definition restore :: "server \<Rightarrow> server" where
  "restore s = transit_state (s\<lparr>is_crashed := False\<rparr>) (Some FollowerC)"

text \<open>\<^verbatim>\<open>on_RequestVote\<close> and \<^verbatim>\<open>on_AppendEntries\<close>: only a Follower reacts.\<close>

definition on_RequestVote :: "role \<Rightarrow> role" where
  "on_RequestVote r = (case r of Follower b \<Rightarrow> Follower True | _ \<Rightarrow> r)"

definition on_AppendEntries :: "role \<Rightarrow> role" where
  "on_AppendEntries r = (case r of Follower b \<Rightarrow> Follower True | _ \<Rightarrow> r)"

text \<open>\<^verbatim>\<open>__check_term\<close>: the returned flag and the updated replica.\<close>

definition check_term :: "server \<Rightarrow> int \<Rightarrow> bool \<times> server" where
  "check_term s tm =
     (if tm < current_term s then (False, s)
      else if tm > current_term s then
        (True, transit_state (s\<lparr>current_term := tm, voted_for := None\<rparr>) (Some FollowerC))
      else (True, s))"

text \<open>\<^verbatim>\<open>self.logs[-1][0] if self.logs else 0\<close>.\<close>

definition last_log_term :: "entry list \<Rightarrow> int" where
  "last_log_term lg = (if lg \<noteq> [] then fst (last lg) else 0)"

text \<open>Python's order on pairs, as used in \<^verbatim>\<open>(a, b) <= (c, d)\<close>.\<close>

definition tuple_le :: "int \<times> int \<Rightarrow> int \<times> int \<Rightarrow> bool" where
  "tuple_le p q = (if fst p \<noteq> fst q then fst p < fst q else snd p \<le> snd q)"

text \<open>
  \<^verbatim>\<open>requestVote\<close> (\<open>tm\<close> is the parameter \<^verbatim>\<open>term\<close>). The lock is taken without
  blocking; every return path of this handler releases it.
\<close>

definition requestVote ::
  "server \<Rightarrow> int \<Rightarrow> int \<Rightarrow> int \<Rightarrow> int \<Rightarrow> (int \<times> bool) outcome \<times> server" where
  "requestVote s tm candidate_id log_index log_term =
     (if lock s then (Return (- 1, False), s)
      else
        let s1 = s\<lparr>lock := True\<rparr> in
        if is_crashed s1 then (Return (- 1, False), s1\<lparr>lock := False\<rparr>)
        else
          case state s1 of
            None \<Rightarrow> (Raise AttributeError, s1)
          | Some r \<Rightarrow>
              let s2 = s1\<lparr>state := Some (on_RequestVote r)\<rparr>;
                  chk = check_term s2 tm;
                  s3 = snd chk
              in
                if \<not> fst chk then (Return (current_term s3, False), s3\<lparr>lock := False\<rparr>)
                else
                  let is_leader = (voted_for s3 = None \<or> voted_for s3 = Some candidate_id);
                      up_to_date =
                        tuple_le (last_log_term (logs s3), int (length (logs s3))) (log_term, log_index);
                      vote_granted = (is_leader \<and> up_to_date);
                      s4 = (if vote_granted then s3\<lparr>voted_for := Some candidate_id\<rparr> else s3)
                  in (Return (tm, vote_granted), s4\<lparr>lock := False\<rparr>))"

text \<open>
  The conflict-detection loop of \<^verbatim>\<open>appendEntries\<close>
  (\<^verbatim>\<open>for index, entry in enumerate(entries, prev_index)\<close>): at the first position inside
  the log whose term differs from the entry's, \<^verbatim>\<open>del self.logs[index:]\<close> and stop.
\<close>

fun find_conflict :: "entry list \<Rightarrow> int \<Rightarrow> entry list \<Rightarrow> entry list outcome" where
  "find_conflict lg index [] = Return lg"
| "find_conflict lg index (entry # rest) =
     (if index < int (length lg) then
        (case py_get lg index of
           None \<Rightarrow> Raise IndexError
         | Some e \<Rightarrow>
             if fst e \<noteq> fst entry then Return (take (py_slice_from lg index) lg)
             else find_conflict lg (index + 1) rest)
      else find_conflict lg (index + 1) rest)"

text \<open>\<^verbatim>\<open>self.logs[prev_index:] = entries\<close>.\<close>

definition assign_from :: "entry list \<Rightarrow> int \<Rightarrow> entry list \<Rightarrow> entry list" where
  "assign_from lg prev_index entries = take (py_slice_from lg prev_index) lg @ entries"

text \<open>
  The body of \<^verbatim>\<open>if entries:\<close> in \<^verbatim>\<open>appendEntries\<close>: the consistency check on
  \<^verbatim>\<open>prev_index\<close> and \<^verbatim>\<open>prev_term\<close>, the conflict loop and the assignment of the suffix.
\<close>

datatype log_result = Mismatch | Updated "entry list" | Failed error

definition prev_mismatch :: "entry list \<Rightarrow> int \<Rightarrow> int \<Rightarrow> bool" where
  "prev_mismatch lg prev_index prev_term =
     (int (length lg) < prev_index \<or>
      (prev_index > 0 \<and> map_option fst (py_get lg (prev_index - 1)) \<noteq> Some prev_term))"

definition reconcile :: "entry list \<Rightarrow> int \<Rightarrow> int \<Rightarrow> entry list \<Rightarrow> log_result" where
  "reconcile lg prev_index prev_term entries =
     (if prev_mismatch lg prev_index prev_term then Mismatch
      else
        case find_conflict lg prev_index entries of
          Raise e \<Rightarrow> Failed e
        | Return lg1 \<Rightarrow> Updated (assign_from lg1 prev_index entries))"

text \<open>
  The apply loop \<^verbatim>\<open>for idx in range(self.last_applied, self.commit_index)\<close>: the store
  as far as it was updated, and the exception that stopped the loop, if any. The boolean
  that \<^verbatim>\<open>SurfStore.updatefile\<close> returns is dropped, as in the source.
\<close>

fun apply_cmds :: "file_infos \<Rightarrow> entry list \<Rightarrow> int list \<Rightarrow> error option \<times> file_infos" where
  "apply_cmds fi lg [] = (None, fi)"
| "apply_cmds fi lg (idx # rest) =
     (case py_get lg idx of
        None \<Rightarrow> (Some IndexError, fi)
      | Some e \<Rightarrow>
          (case surf_updatefile fi (fst (snd e)) (fst (snd (snd e))) (snd (snd (snd e))) of
             Raise x \<Rightarrow> (Some x, fi)
           | Return r \<Rightarrow> apply_cmds (snd r) lg rest))"

text \<open>
  The tail of \<^verbatim>\<open>appendEntries\<close> from \<^verbatim>\<open>if leader_commit > self.commit_index\<close> on:
  commit, apply, release the lock, reply. An exception of the apply loop leaves the
  handler with the lock still held.
\<close>

definition commit_and_apply :: "server \<Rightarrow> int \<Rightarrow> (int \<times> bool) outcome \<times> server" where
  "commit_and_apply s leader_commit =
     (let s1 = (if leader_commit > commit_index s
                then s\<lparr>commit_index := min leader_commit (int (length (logs s)))\<rparr> else s)
      in
        if commit_index s1 > last_applied s1 then
          (case apply_cmds (surfstore s1) (logs s1) (py_range (last_applied s1) (commit_index s1)) of
             (Some x, fi) \<Rightarrow> (Raise x, s1\<lparr>surfstore := fi\<rparr>)
           | (None, fi) \<Rightarrow>
               (Return (current_term s1, True),
                s1\<lparr>surfstore := fi, last_applied := commit_index s1, lock := False\<rparr>))
        else (Return (current_term s1, True), s1\<lparr>lock := False\<rparr>))"

text \<open>
  \<^verbatim>\<open>appendEntries\<close>. The lock is taken without blocking. The return on a failed
  consistency check (\<open>Mismatch\<close>) is the source's
  \<^verbatim>\<open>return self.current_term, False\<close> with no \<^verbatim>\<open>self.lock.release()\<close> before it.
\<close>

definition appendEntries ::
  "server \<Rightarrow> int \<Rightarrow> int \<Rightarrow> int \<Rightarrow> entry list \<Rightarrow> int \<Rightarrow> (int \<times> bool) outcome \<times> server" where
  "appendEntries s tm prev_index prev_term entries leader_commit =
     (if lock s then (Return (- 1, False), s)
      else
        let s1 = s\<lparr>lock := True\<rparr> in
        if is_crashed s1 then (Return (- 1, False), s1\<lparr>lock := False\<rparr>)
        else
          case state s1 of
            None \<Rightarrow> (Raise AttributeError, s1)
          | Some r \<Rightarrow>
              let s2 = s1\<lparr>state := Some (on_AppendEntries r)\<rparr>;
                  chk = check_term s2 tm;
                  s3 = snd chk
              in
                if \<not> fst chk then (Return (current_term s3, False), s3\<lparr>lock := False\<rparr>)
                else if entries \<noteq> [] then
                  (case reconcile (logs s3) prev_index prev_term entries of
                     Mismatch \<Rightarrow> (Return (current_term s3, False), s3)
                   | Failed x \<Rightarrow> (Raise x, s3)
                   | Updated lg \<Rightarrow> commit_and_apply (s3\<lparr>logs := lg\<rparr>) leader_commit)
                else commit_and_apply s3 leader_commit)"

section \<open>Client-facing operations of the replica\<close>

text \<open>
  Both client-facing operations wait in a loop \<^verbatim>\<open>while cond: pass\<close> whose body changes
  nothing. Run on one state \<open>s\<close> the loop ends at once when the condition is false there
  and never ends when it is true: only another thread changing the state lets the call go
  on. \<open>None\<close> is the call that does not return.
\<close>

partial_function (option) busy_wait :: "(server \<Rightarrow> bool) \<Rightarrow> server \<Rightarrow> unit option" where
  "busy_wait cond s = (if cond s then busy_wait cond s else Some ())"

text \<open>
  \<^verbatim>\<open>getfileinfomap\<close>: wait while Leader and \<^verbatim>\<open>num_up\<close> is below the majority, then
  return the map if still Leader.
\<close>

definition getfileinfomap :: "server \<Rightarrow> file_infos outcome option" where
  "getfileinfomap s =
     (case busy_wait (\<lambda>s. isLeader s \<and> num_up s < num_servers s div 2 + 1) s of
        None \<Rightarrow> None
      | Some u \<Rightarrow>
          if isLeader s then Some (Return (surfstore s)) else Some (Raise NotLeader))"

text \<open>
  \<^verbatim>\<open>updatefile\<close> in two parts. First the leader check and the body of
  \<^verbatim>\<open>with self.lock\<close>, the append, giving \<^verbatim>\<open>pending_index\<close>. The body runs with the
  lock taken and leaves it free: taking the lock is in \<open>updatefile\<close> and in the step
  rule below.
\<close>

definition updatefile_append ::
  "server \<Rightarrow> string \<Rightarrow> int \<Rightarrow> hash list \<Rightarrow> int outcome \<times> server" where
  "updatefile_append s filename version blocklist =
     (if isLeader s then
        let s1 = s\<lparr>logs := logs s @ [(current_term s, (filename, version, blocklist))]\<rparr>
        in (Return (int (length (logs s1))), s1)
      else (Raise NotLeader, s))"

text \<open>
  Then the wait \<^verbatim>\<open>while self.isLeader() and self.commit_index < pending_index: pass\<close>
  and what follows it, run on the state the waiting call observes.
\<close>

definition updatefile_wait ::
  "server \<Rightarrow> int \<Rightarrow> string \<Rightarrow> int \<Rightarrow> hash list \<Rightarrow> (bool outcome \<times> server) option" where
  "updatefile_wait s pending_index filename version blocklist =
     (case busy_wait (\<lambda>s. isLeader s \<and> commit_index s < pending_index) s of
        None \<Rightarrow> None
      | Some u \<Rightarrow>
          if isLeader s then
            (let s1 = s\<lparr>last_applied := pending_index\<rparr> in
               case surf_updatefile (surfstore s1) filename version blocklist of
                 Raise x \<Rightarrow> Some (Raise x, s1)
               | Return r \<Rightarrow> Some (Return (fst r), s1\<lparr>surfstore := snd r\<rparr>))
          else Some (Raise NotLeader, s))"

text \<open>
  The whole call. A replica that is not Leader raises at once. A Leader enters
  \<^verbatim>\<open>with self.lock\<close>, which blocks while the lock is held (on one state: for ever),
  appends and waits. \<open>others\<close> is what the other threads of the replica (the
  replication loop, incoming RPCs) do to the state between the append and the moment the
  wait is evaluated.
\<close>

definition updatefile ::
  "(server \<Rightarrow> server) \<Rightarrow> server \<Rightarrow> string \<Rightarrow> int \<Rightarrow> hash list \<Rightarrow> (bool outcome \<times> server) option" where
  "updatefile others s filename version blocklist =
     (if isLeader s then
        (case busy_wait lock s of
           None \<Rightarrow> None
         | Some u \<Rightarrow>
             (case updatefile_append s filename version blocklist of
                (Raise x, s1) \<Rightarrow> Some (Raise x, s1)
              | (Return pending_index, s1) \<Rightarrow>
                  updatefile_wait (others s1) pending_index filename version blocklist))
      else Some (Raise NotLeader, s))"

section \<open>The role loops (\<^verbatim>\<open>state.py\<close>), one iteration each\<close>

text \<open>
  Each loop body runs under \<^verbatim>\<open>with self.server.lock\<close>. The replies of the peers are
  the environment of the replica: \<open>reply p\<close> is \<open>None\<close> when the call to peer \<open>p\<close> raised
  OSError, and the returned pair otherwise.
\<close>

type_synonym replies = "int \<Rightarrow> (int \<times> bool) option"

text \<open>
  \<^verbatim>\<open>Follower.convert_to_candidate\<close>, one wake-up of a Follower whose flag is \<open>b\<close>.
\<close>

definition convert_to_candidate :: "server \<Rightarrow> bool \<Rightarrow> server" where
  "convert_to_candidate s b =
     (if \<not> b then transit_state s (Some CandidateC) else s\<lparr>state := Some (Follower False)\<rparr>)"

text \<open>
  The vote loop of \<^verbatim>\<open>Candidate.elect_leader\<close>; the accumulator is
  \<^verbatim>\<open>(latest_term, votes)\<close>, and \<^verbatim>\<open>votes += vote_granted\<close> adds a boolean.
\<close>

fun count_votes :: "replies \<Rightarrow> int list \<Rightarrow> int \<times> int \<Rightarrow> int \<times> int" where
  "count_votes reply [] acc = acc"
| "count_votes reply (p # ps) acc =
     (case reply p of
        None \<Rightarrow> count_votes reply ps acc
      | Some r \<Rightarrow>
          count_votes reply ps (max (fst acc) (fst r), snd acc + (if snd r then 1 else 0)))"

definition elect_leader :: "server \<Rightarrow> replies \<Rightarrow> server" where
  "elect_leader s reply =
     (let s1 = s\<lparr>current_term := current_term s + 1\<rparr>;
          s2 = s1\<lparr>voted_for := Some (server_id s1)\<rparr>;
          acc = count_votes reply (proxies s2) (current_term s2, 1);
          latest_term = fst acc;
          votes = snd acc
      in
        if votes \<ge> majority s2 then transit_state s2 (Some LeaderC)
        else if latest_term > current_term s2 then
          transit_state (s2\<lparr>current_term := latest_term, voted_for := None\<rparr>) (Some FollowerC)
        else s2)"

text \<open>
  The send loop of \<^verbatim>\<open>Leader.append_entry\<close>. The loop variables are
  \<^verbatim>\<open>next_indexes\<close>, \<^verbatim>\<open>match_indexes\<close>, \<^verbatim>\<open>latest_term\<close> and \<^verbatim>\<open>num_up\<close> (the
  field \<open>up\<close>, as \<open>num_up\<close> names the field of the replica).
  \<^verbatim>\<open>self.next_indexes[server_id]\<close> raises KeyError for a proxy that has no entry, and
  \<^verbatim>\<open>self.server.logs[prev_index - 1]\<close> raises IndexError outside the log. The entries
  sent to a peer (the log from \<^verbatim>\<open>next_index\<close> on, none when \<^verbatim>\<open>next_index\<close> is past the
  log) are built from slices, which never raise, and do not enter the Leader's state.
  The result is the exception that stopped the loop, if any, and the loop variables as
  far as they were updated: the dicts are changed in place. A call to a peer is taken to
  return a pair or to raise OSError; a peer whose handler raises, so that the proxy
  raises something else, is not among the replies.
\<close>

record round_vars =
  next_indexes :: index_map
  match_indexes :: index_map
  latest_term :: int
  up :: int

text \<open>\<^verbatim>\<open>self.server.logs[prev_index - 1][0] if prev_index else 0\<close>.\<close>

definition prev_term_of :: "entry list \<Rightarrow> int \<Rightarrow> int option" where
  "prev_term_of lg prev_index =
     (if prev_index \<noteq> 0 then map_option fst (py_get lg (prev_index - 1)) else Some 0)"

fun send_entries ::
  "entry list \<Rightarrow> replies \<Rightarrow> int list \<Rightarrow> round_vars \<Rightarrow> error option \<times> round_vars" where
  "send_entries lg reply [] rv = (None, rv)"
| "send_entries lg reply (p # ps) rv =
     (case map_of (next_indexes rv) p of
        None \<Rightarrow> (Some KeyError, rv)
      | Some next_index \<Rightarrow>
          (case prev_term_of lg (next_index - 1) of
             None \<Rightarrow> (Some IndexError, rv)
           | Some prev_term \<Rightarrow>
               (case reply p of
                  None \<Rightarrow> send_entries lg reply ps rv
                | Some r \<Rightarrow>
                    let rv1 = rv\<lparr>latest_term := max (latest_term rv) (fst r)\<rparr> in
                    if snd r then
                      send_entries lg reply ps
                        (rv1\<lparr>next_indexes := AList.update p (int (length lg) + 1) (next_indexes rv1),
                             match_indexes := AList.update p (int (length lg)) (match_indexes rv1),
                             up := up rv1 + 1\<rparr>)
                    else if fst r \<noteq> - 1 then
                      send_entries lg reply ps
                        (rv1\<lparr>next_indexes := AList.update p (next_index - 1) (next_indexes rv1),
                             up := up rv1 + 1\<rparr>)
                    else send_entries lg reply ps rv1)))"

text \<open>\<^verbatim>\<open>max(...)\<close> of a sequence: ValueError (\<open>None\<close>) on the empty one.\<close>

fun py_max :: "int list \<Rightarrow> int option" where
  "py_max [] = None"
| "py_max (x # xs) = Some (fold max xs x)"

text \<open>
  \<^verbatim>\<open>reduce(lambda n, match_index: n + (follower_commit <= match_index), values, 0)\<close>.
\<close>

definition count_matches :: "int list \<Rightarrow> int \<Rightarrow> int" where
  "count_matches vs follower_commit =
     foldl (\<lambda>n match_index. n + (if follower_commit \<le> match_index then 1 else 0)) 0 vs"

text \<open>
  The commit loop of \<^verbatim>\<open>Leader.append_entry\<close> over the candidates
  \<^verbatim>\<open>range(max(match_indexes.values()), commit_index, -1)\<close>: the new value of
  \<^verbatim>\<open>commit_index\<close>. The log is read only when the count reaches \<^verbatim>\<open>majority - 1\<close>.
\<close>

fun find_commit :: "server \<Rightarrow> int list \<Rightarrow> int list \<Rightarrow> int outcome" where
  "find_commit s vs [] = Return (commit_index s)"
| "find_commit s vs (follower_commit # rest) =
     (if count_matches vs follower_commit \<ge> majority s - 1 then
        (case py_get (logs s) (follower_commit - 1) of
           None \<Rightarrow> Raise IndexError
         | Some e \<Rightarrow>
             if fst e = current_term s then Return follower_commit
             else find_commit s vs rest)
      else find_commit s vs rest)"

definition advance_commit :: "server \<Rightarrow> index_map \<Rightarrow> int outcome" where
  "advance_commit s mt =
     (case py_max (map snd mt) of
        None \<Rightarrow> Raise ValueError
      | Some m \<Rightarrow> find_commit s (map snd mt) (py_range_down m (commit_index s)))"

text \<open>
  One iteration of \<^verbatim>\<open>Leader.append_entry\<close> for the Leader object with dicts \<open>nx\<close> and
  \<open>mt\<close>. An exception ends the thread of the Leader.
\<close>

definition append_entry :: "server \<Rightarrow> index_map \<Rightarrow> index_map \<Rightarrow> replies \<Rightarrow> unit outcome \<times> server" where
  "append_entry s nx mt reply =
     (case send_entries (logs s) reply (proxies s)
             \<lparr>next_indexes = nx, match_indexes = mt, latest_term = current_term s, up = 1\<rparr> of
        (Some x, rv) \<Rightarrow>
          (Raise x, s\<lparr>state := Some (Leader (next_indexes rv) (match_indexes rv))\<rparr>)
      | (None, rv) \<Rightarrow>
          let s1 = s\<lparr>state := Some (Leader (next_indexes rv) (match_indexes rv)), num_up := up rv\<rparr> in
          (case advance_commit s1 (match_indexes rv) of
             Raise x \<Rightarrow> (Raise x, s1)
           | Return c \<Rightarrow>
               let s2 = s1\<lparr>commit_index := c\<rparr> in
               if latest_term rv > current_term s2 then
                 (Return (), transit_state (s2\<lparr>current_term := latest_term rv\<rparr>) (Some FollowerC))
               else (Return (), s2)))"

section \<open>The steps of one replica\<close>

text \<open>
  A configuration is the replica together with the \<^verbatim>\<open>updatefile\<close> calls that have
  appended their entry and are waiting for it to be committed (pending index and
  parameters). Peers and clients are unconstrained. A \<^verbatim>\<open>with self.lock\<close> block starts
  only when the lock is free. A role loop whose iteration raises has ended and takes no
  further step. A role loop takes a step only while its role object is the current one;
  in the code a loop that has passed its stop test when the role is replaced still runs
  one more iteration once it gets the lock. Those iterations are not steps here, so
  every state reachable below is a state of the code, not the other way round.
\<close>

type_synonym pending = "int \<times> string \<times> int \<times> hash list"

inductive step :: "server \<times> pending list \<Rightarrow> server \<times> pending list \<Rightarrow> bool" where
  do_crash: "\<not> lock s \<Longrightarrow> step (s, w) (crash s, w)"
| do_restore: "\<not> lock s \<Longrightarrow> step (s, w) (restore s, w)"
| rpc_requestVote: "step (s, w) (snd (requestVote s tm cid li lt), w)"
| rpc_appendEntries: "step (s, w) (snd (appendEntries s tm prev_index prev_term entries lc), w)"
| follower_wakes: "\<not> lock s \<Longrightarrow> state s = Some (Follower b) \<Longrightarrow>
     step (s, w) (convert_to_candidate s b, w)"
| candidate_round: "\<not> lock s \<Longrightarrow> state s = Some Candidate \<Longrightarrow>
     step (s, w) (elect_leader s reply, w)"
| leader_round: "\<not> lock s \<Longrightarrow> state s = Some (Leader nx mt) \<Longrightarrow>
     append_entry s nx mt reply = (Return (), t) \<Longrightarrow> step (s, w) (t, w)"
| client_append: "\<not> lock s \<Longrightarrow> updatefile_append s f v bl = (Return p, t) \<Longrightarrow>
     step (s, w) (t, (p, f, v, bl) # w)"
| client_wait: "(p, f, v, bl) \<in> set w \<Longrightarrow> updatefile_wait s p f v bl = Some (r, t) \<Longrightarrow>
     step (s, w) (t, remove1 (p, f, v, bl) w)"

inductive reachable :: "int list \<Rightarrow> int \<Rightarrow> int \<Rightarrow> server \<times> pending list \<Rightarrow> bool" where
  start: "reachable ps i n (init_server ps i n, [])"
| after: "reachable ps i n c \<Longrightarrow> step c c' \<Longrightarrow> reachable ps i n c'"

text \<open>The bounds on the indices of a replica: applied up to committed, committed inside the log.\<close>

definition bounds :: "server \<Rightarrow> bool" where
  "bounds s = (last_applied s \<le> commit_index s \<and> commit_index s \<le> int (length (logs s)))"

section \<open>The rule of the classical protocol for the receiver's log\<close>

text \<open>
  Modelled from the specification's words, for comparison with \<open>reconcile\<close>: walk the
  log after \<open>prevIndex\<close> and the entries in parallel; at the first conflicting term
  truncate everything from that position onward, then append the remaining new entries.
  Existing entries beyond the sent ones that do not conflict are kept.
\<close>

fun classical_walk :: "entry list \<Rightarrow> entry list \<Rightarrow> entry list" where
  "classical_walk old [] = old"
| "classical_walk [] new = new"
| "classical_walk (x # old) (y # new) =
     (if fst x \<noteq> fst y then y # new else x # classical_walk old new)"

definition classical_reconcile :: "entry list \<Rightarrow> nat \<Rightarrow> entry list \<Rightarrow> entry list" where
  "classical_reconcile lg prev_index entries =
     take prev_index lg @ classical_walk (drop prev_index lg) entries"

text \<open>The majority as the specification words it: \<open>\<lceil>N/2\<rceil> + 1\<close>.\<close>

definition spec_majority :: "int \<Rightarrow> int" where
  "spec_majority n = \<lceil>real_of_int n / 2\<rceil> + 1"

section \<open>Concrete replicas used as examples\<close>

text \<open>
  Replica 0 of a cluster of three, restored; then the same replica after a sequence of
  \<^verbatim>\<open>appendEntries\<close> calls of a leader of term 1 whose log grows to three entries. The
  third call is the leader's first request (one entry, sent when the leader held only
  that entry), delivered late.
\<close>

definition late_0 :: server where
  "late_0 = restore (init_server [1, 2] 0 3)"

definition late_1 :: server where
  "late_1 = snd (appendEntries late_0 1 0 0
      [(1, (''a'', 1, [''h''])), (1, (''a'', 2, [''k''])), (1, (''b'', 1, []))] 0)"

definition late_2 :: server where
  "late_2 = snd (appendEntries late_1 1 3 1 [] 2)"

definition late_3 :: server where
  "late_3 = snd (appendEntries late_2 1 0 0 [(1, (''a'', 1, [''h'']))] 0)"

definition late_4 :: server where
  "late_4 = snd (appendEntries late_3 1 3 1 [] 3)"

text \<open>A Leader of term 1 in a cluster of three that has applied version 1 of file \<open>a\<close>.\<close>

definition leader_a :: server where
  "leader_a =
     \<lparr>surfstore = [(''a'', (1, [''h'']))], num_servers = 3, proxies = [1, 2], server_id = 0,
      current_term = 1, voted_for = Some 0, logs = [(1, (''a'', 1, [''h'']))], commit_index = 1,
      last_applied = 1, lock = False, num_up = 3, is_crashed = False,
      state = Some (Leader [(1, 2), (2, 2)] [(1, 1), (2, 1)])\<rparr>"

text \<open>One replication round of a Leader in which both peers answer (1, True).\<close>

definition both_ack :: "server \<Rightarrow> server" where
  "both_ack s =
     (case state s of
        Some (Leader nx mt) \<Rightarrow> snd (append_entry s nx mt (map_of [(1, (1, True)), (2, (1, True))]))
      | _ \<Rightarrow> s)"

text \<open>
  The only replica of a cluster of one: restored, its election timeout passed, its
  election won with its own vote, and one \<^verbatim>\<open>updatefile\<close> call appended to its log.
\<close>

definition solo_leader :: server where
  "solo_leader =
     snd (updatefile_append
            (elect_leader (convert_to_candidate (restore (init_server [] 0 1)) False) (map_of []))
            ''a'' 1 [''h''])"

section \<open>Facts about the handlers\<close>

text \<open>The waiting loop on a fixed state: it returns iff its condition is false.\<close>

lemma busy_wait_returns: "busy_wait cond s = Some u \<Longrightarrow> \<not> cond s"
proof (rule busy_wait.raw_induct [where P = "\<lambda>c t r. \<not> c t"])
  show "busy_wait cond s = Some u" if "busy_wait cond s = Some u" using that .
next
  fix f and c :: "server \<Rightarrow> bool" and t :: server and r :: unit
  assume IH: "\<And>c t r. f c t = Some r \<Longrightarrow> \<not> c t"
    and eq: "(if c t then f c t else Some ()) = Some r"
  show "\<not> c t"
  proof
    assume "c t"
    with eq have "f c t = Some r" by simp
    from IH [OF this] \<open>c t\<close> show False by simp
  qed
qed

lemma busy_wait_eq: "busy_wait cond s = (if cond s then None else Some ())"
proof (cases "cond s")
  case True
  have "busy_wait cond s = None"
  proof (cases "busy_wait cond s")
    case None
    then show ?thesis .
  next
    case (Some u)
    from busy_wait_returns [OF this] True show ?thesis by simp
  qed
  with True show ?thesis by simp
next
  case False
  then show ?thesis by (subst busy_wait.simps) simp
qed

lemma check_term_pass:
  "current_term s \<le> tm \<Longrightarrow> fst (check_term s tm) \<and> current_term (snd (check_term s tm)) = tm
     \<and> logs (snd (check_term s tm)) = logs s \<and> lock (snd (check_term s tm)) = lock s
     \<and> voted_for (snd (check_term s tm)) = (if current_term s < tm then None else voted_for s)"
  by (simp add: check_term_def transit_state_def)

lemma prev_mismatch_iff:
  "0 < prev_index \<Longrightarrow>
   prev_mismatch lg prev_index prev_term \<longleftrightarrow>
     (int (length lg) < prev_index \<or> fst (lg ! (nat prev_index - 1)) \<noteq> prev_term)"
proof -
  assume p: "0 < prev_index"
  then have n: "nat (prev_index - 1) = nat prev_index - 1" by simp
  show ?thesis
  proof (cases "int (length lg) < prev_index")
    case True
    then show ?thesis by (simp add: prev_mismatch_def)
  next
    case False
    with p have "py_get lg (prev_index - 1) = Some (lg ! (nat prev_index - 1))"
      by (simp add: py_get_def n)
    with p False show ?thesis by (simp add: prev_mismatch_def)
  qed
qed

lemma getfileinfomap_eq:
  "getfileinfomap s =
     (if isLeader s \<and> num_up s < num_servers s div 2 + 1 then None
      else if isLeader s then Some (Return (surfstore s))
      else Some (Raise NotLeader))"
  by (simp add: getfileinfomap_def busy_wait_eq)

lemma updatefile_wait_eq:
  "updatefile_wait s pending_index filename version blocklist =
     (if isLeader s \<and> commit_index s < pending_index then None
      else if isLeader s then
        (let s1 = s\<lparr>last_applied := pending_index\<rparr> in
           case surf_updatefile (surfstore s1) filename version blocklist of
             Raise x \<Rightarrow> Some (Raise x, s1)
           | Return r \<Rightarrow> Some (Return (fst r), s1\<lparr>surfstore := snd r\<rparr>))
      else Some (Raise NotLeader, s))"
  by (simp add: updatefile_wait_def busy_wait_eq)

subsection \<open>The file-info store\<close>

text \<open>
  Claim C5. For every store: when \<open>name\<close> exists with version \<open>v\<close> and
  \<open>version \<noteq> v + 1\<close>, \<^verbatim>\<open>updatefile\<close> returns False and leaves the map as it is (a
  return, not an exception); when \<open>name\<close> exists and \<open>version = v + 1\<close>, or \<open>name\<close> does
  not exist and \<open>version = 1\<close>, it returns True and the map sends \<open>name\<close> to
  \<open>(version, blocklist)\<close> and is otherwise unchanged; when \<open>name\<close> does not exist and
  \<open>version \<noteq> 1\<close> the assertion fails.
\<close>

theorem updatefile_versions:
  "(map_of fi name = Some (v, bl) \<and> version \<noteq> v + 1 \<longrightarrow>
      surf_updatefile fi name version blocklist = Return (False, fi))
   \<and> ((map_of fi name = Some (v, bl) \<and> version = v + 1) \<or> (map_of fi name = None \<and> version = 1) \<longrightarrow>
      (\<exists>fi'. surf_updatefile fi name version blocklist = Return (True, fi')
          \<and> map_of fi' = (map_of fi)(name \<mapsto> (version, blocklist))))
   \<and> (map_of fi name = None \<and> version \<noteq> 1 \<longrightarrow>
      surf_updatefile fi name version blocklist = Raise AssertionError)"
  by (auto simp: surf_updatefile_def update_conv')

theorem updatefile_versions_witness:
  "surf_updatefile [(''a'', (1, [''h'']))] ''a'' 3 [''k''] = Return (False, [(''a'', (1, [''h'']))])
   \<and> (\<exists>fi'. surf_updatefile [(''a'', (1, [''h'']))] ''a'' 2 [''k''] = Return (True, fi')
          \<and> map_of fi' = (map_of [(''a'', (1, [''h'']))])(''a'' \<mapsto> (2, [''k''])))
   \<and> (\<exists>fi'. surf_updatefile [] ''a'' 1 [''k''] = Return (True, fi')
          \<and> map_of fi' = (map_of [])(''a'' \<mapsto> (1, [''k''])))
   \<and> surf_updatefile [] ''a'' 2 [''k''] = Raise AssertionError"
proof -
  have a: "surf_updatefile [(''a'', (1, [''h'']))] ''a'' 3 [''k''] = Return (False, [(''a'', (1, [''h'']))])"
    using updatefile_versions [of "[(''a'', (1, [''h'']))]" "''a''" 1 "[''h'']" 3 "[''k'']"] by simp
  have b: "\<exists>fi'. surf_updatefile [(''a'', (1, [''h'']))] ''a'' 2 [''k''] = Return (True, fi')
          \<and> map_of fi' = (map_of [(''a'', (1, [''h'']))])(''a'' \<mapsto> (2, [''k'']))"
    using updatefile_versions [of "[(''a'', (1, [''h'']))]" "''a''" 1 "[''h'']" 2 "[''k'']"] by simp
  have c: "\<exists>fi'. surf_updatefile [] ''a'' 1 [''k''] = Return (True, fi')
          \<and> map_of fi' = (map_of [])(''a'' \<mapsto> (1, [''k'']))"
    using updatefile_versions [of "[]" "''a''" 0 "[]" 1 "[''k'']"] by simp
  have d: "surf_updatefile [] ''a'' 2 [''k''] = Raise AssertionError"
    using updatefile_versions [of "[]" "''a''" 0 "[]" 2 "[''k'']"] by simp
  from a b c d show ?thesis by blast
qed

subsection \<open>The crashed replica\<close>

text \<open>
  Claim C7. On a crashed replica (\<^verbatim>\<open>is_crashed\<close> set, no role object), \<^verbatim>\<open>requestVote\<close>
  and \<^verbatim>\<open>appendEntries\<close> reply \<open>(-1, False)\<close> and leave the whole replica, so also term,
  log and vote, as it was; \<^verbatim>\<open>updatefile\<close> and \<^verbatim>\<open>getfileinfomap\<close> raise the not-leader
  exception instead of returning a value.
\<close>

theorem down_replica:
  assumes "is_crashed s" and "state s = None"
  shows "requestVote s tm cid li lt = (Return (- 1, False), s)
       \<and> appendEntries s tm prev_index prev_term entries lc = (Return (- 1, False), s)
       \<and> updatefile others s f v bl = Some (Raise NotLeader, s)
       \<and> getfileinfomap s = Some (Raise NotLeader)"
  using assms
  by (simp add: requestVote_def appendEntries_def updatefile_def updatefile_append_def
      getfileinfomap_eq isLeader_def Let_def)

theorem down_replica_witness:
  "is_crashed (init_server [1, 2] 0 3) \<and> state (init_server [1, 2] 0 3) = None
   \<and> requestVote (init_server [1, 2] 0 3) 1 1 0 0 = (Return (- 1, False), init_server [1, 2] 0 3)
   \<and> appendEntries (init_server [1, 2] 0 3) 1 0 0 [(1, (''a'', 1, []))] 0
       = (Return (- 1, False), init_server [1, 2] 0 3)
   \<and> updatefile crash (init_server [1, 2] 0 3) ''a'' 1 [] = Some (Raise NotLeader, init_server [1, 2] 0 3)
   \<and> getfileinfomap (init_server [1, 2] 0 3) = Some (Raise NotLeader)"
proof -
  have c: "is_crashed (init_server [1, 2] 0 3)" and n: "state (init_server [1, 2] 0 3) = None"
    by (simp_all add: init_server_def)
  from c n down_replica [OF c n, of 1 1 0 0 0 0 "[(1, (''a'', 1, []))]" 0 crash "''a''" 1 "[]"]
  show ?thesis by simp
qed

subsection \<open>Votes\<close>

text \<open>
  Claim C4. For a \<^verbatim>\<open>requestVote\<close> whose term is at least the receiver's, on a replica
  that is not crashed and whose lock is free: with \<open>vf\<close> the receiver's vote after the
  term check (cleared when the request's term is higher), the vote is granted iff \<open>vf\<close>
  is null or the candidate, and the candidate's (last term, last index) is at least the
  receiver's in the lexicographic order; on a grant the candidate is recorded in
  \<^verbatim>\<open>voted_for\<close>, otherwise the vote stays \<open>vf\<close>; the first component of the reply is the
  receiver's current term after the call.
\<close>

theorem requestVote_grant:
  fixes s :: server and tm cid li lt :: int
  defines "vf \<equiv> (if current_term s < tm then None else voted_for s)"
  defines "granted \<equiv> (vf = None \<or> vf = Some cid) \<and>
       (last_log_term (logs s) < lt \<or> (last_log_term (logs s) = lt \<and> int (length (logs s)) \<le> li))"
  assumes "\<not> lock s" and "\<not> is_crashed s" and "state s = Some r" and "current_term s \<le> tm"
  shows "\<exists>s'. requestVote s tm cid li lt = (Return (current_term s', granted), s')
         \<and> current_term s' = tm
         \<and> voted_for s' = (if granted then Some cid else vf)"
proof -
  let ?s2 = "s\<lparr>lock := True, state := Some (on_RequestVote r)\<rparr>"
  have le: "current_term ?s2 \<le> tm" using assms(6) by simp
  note c = check_term_pass [OF le]
  show ?thesis
    using assms(3-5) c unfolding vf_def granted_def
    by (auto simp: requestVote_def Let_def tuple_le_def)
qed

theorem requestVote_grant_witness:
  "\<exists>s'. requestVote (restore (init_server [1, 2] 0 3)) 1 1 0 0 = (Return (current_term s', True), s')
         \<and> current_term s' = 1 \<and> voted_for s' = Some 1"
proof -
  have a: "\<not> lock (restore (init_server [1, 2] 0 3))"
    and b: "\<not> is_crashed (restore (init_server [1, 2] 0 3))"
    and c: "state (restore (init_server [1, 2] 0 3)) = Some (Follower False)"
    and d: "current_term (restore (init_server [1, 2] 0 3)) \<le> 1"
    and e: "voted_for (restore (init_server [1, 2] 0 3)) = None"
    and f: "logs (restore (init_server [1, 2] 0 3)) = []"
    by (simp_all add: restore_def init_server_def transit_state_def new_role_def)
  have g: "current_term (restore (init_server [1, 2] 0 3)) = 0"
    by (simp add: restore_def init_server_def transit_state_def)
  from requestVote_grant [OF a b c d, where cid = 1 and li = 0 and lt = 0] e f g show ?thesis
    by (simp add: last_log_term_def)
qed

subsection \<open>The consistency check of appendEntries\<close>

text \<open>
  Claim C2, as the code has it. For an \<^verbatim>\<open>appendEntries\<close> whose term passes the term
  check and whose \<open>entries\<close> list is not empty: if \<open>prev_index > 0\<close> and the log is
  shorter than \<open>prev_index\<close> or its entry at \<open>prev_index\<close> has another term than
  \<open>prev_term\<close>, the reply is (current term, False) and the log is unchanged.
\<close>

theorem appendEntries_mismatch:
  assumes "\<not> lock s" and "\<not> is_crashed s" and "state s = Some r" and "current_term s \<le> tm"
    and "entries \<noteq> []" and "0 < prev_index"
    and "int (length (logs s)) < prev_index \<or> fst (logs s ! (nat prev_index - 1)) \<noteq> prev_term"
  shows "\<exists>s'. appendEntries s tm prev_index prev_term entries lc = (Return (current_term s', False), s')
           \<and> current_term s' = tm \<and> logs s' = logs s"
proof -
  let ?s2 = "s\<lparr>lock := True, state := Some (on_AppendEntries r)\<rparr>"
  have le: "current_term ?s2 \<le> tm" using assms(4) by simp
  note c = check_term_pass [OF le]
  have mm: "prev_mismatch (logs (snd (check_term ?s2 tm))) prev_index prev_term"
    using assms(6,7) c by (simp add: prev_mismatch_iff)
  show ?thesis
    using assms(1-3,5) c mm
    by (simp add: appendEntries_def Let_def reconcile_def)
qed

theorem appendEntries_mismatch_witness:
  "\<exists>s'. appendEntries (restore (init_server [1, 2] 0 3)) 1 1 1 [(1, (''a'', 1, []))] 0
           = (Return (current_term s', False), s')
        \<and> current_term s' = 1 \<and> logs s' = []"
proof -
  have a: "\<not> lock (restore (init_server [1, 2] 0 3))"
    and b: "\<not> is_crashed (restore (init_server [1, 2] 0 3))"
    and c: "state (restore (init_server [1, 2] 0 3)) = Some (Follower False)"
    and d: "current_term (restore (init_server [1, 2] 0 3)) \<le> 1"
    and f: "logs (restore (init_server [1, 2] 0 3)) = []"
    by (simp_all add: restore_def init_server_def transit_state_def new_role_def)
  have e: "[(1::int, (''a'', 1::int, []::hash list))] \<noteq> []" and p: "(0::int) < 1" by simp_all
  have m: "int (length (logs (restore (init_server [1, 2] 0 3)))) < 1
      \<or> fst (logs (restore (init_server [1, 2] 0 3)) ! (nat 1 - 1)) \<noteq> 1"
    using f by simp
  from appendEntries_mismatch [OF a b c d e p m, of 0] f show ?thesis by simp
qed

text \<open>
  The claim as the specification words it also covers an empty \<open>entries\<close> list. There
  the check is not made: a restored Follower with an empty log that receives a heartbeat
  with \<open>prev_index = 1\<close> replies (1, True).
\<close>

theorem heartbeat_skips_check:
  "appendEntries (restore (init_server [1, 2] 0 3)) 1 1 1 [] 0 =
     (Return (1, True),
      \<lparr>surfstore = [], num_servers = 3, proxies = [1, 2], server_id = 0, current_term = 1,
       voted_for = None, logs = [], commit_index = 0, last_applied = 0, lock = False,
       num_up = 1, is_crashed = False, state = Some (Follower False)\<rparr>)"
  by (simp add: appendEntries_def restore_def init_server_def transit_state_def new_role_def
      check_term_def on_AppendEntries_def commit_and_apply_def Let_def)

subsection \<open>The majority and the election\<close>

lemma count_votes_snd:
  "snd (count_votes reply ps acc) =
     snd acc + int (length (filter (\<lambda>p. \<exists>t. reply p = Some (t, True)) ps))"
proof (induction ps arbitrary: acc)
  case Nil
  show ?case by simp
next
  case (Cons p ps)
  show ?case
  proof (cases "reply p")
    case None
    then show ?thesis using Cons.IH [of acc] by simp
  next
    case (Some r)
    then show ?thesis
      using Cons.IH [of "(max (fst acc) (fst r), snd acc + (if snd r then 1 else 0))"]
      by (cases r) auto
  qed
qed

text \<open>
  Claim C1, as the code has it. For every replica count \<open>N\<close> the majority threshold is
  \<open>N div 2 + 1\<close> (the floor of \<open>N/2\<close>, plus one), and a Candidate's election round makes
  it Leader exactly when its vote count, one for itself plus one for every peer whose
  reply grants the vote, reaches \<open>N div 2 + 1\<close>.
\<close>

theorem candidate_becomes_leader:
  assumes "state s = Some Candidate"
  shows "majority s = num_servers s div 2 + 1
       \<and> (isLeader (elect_leader s reply) \<longleftrightarrow>
            1 + int (length (filter (\<lambda>p. \<exists>t. reply p = Some (t, True)) (proxies s)))
              \<ge> num_servers s div 2 + 1)"
  using assms
  by (simp add: elect_leader_def Let_def majority_def count_votes_snd isLeader_def
      transit_state_def new_role_def)

theorem candidate_becomes_leader_witness:
  "state (convert_to_candidate late_0 False) = Some Candidate
   \<and> majority (convert_to_candidate late_0 False) = 2
   \<and> isLeader (elect_leader (convert_to_candidate late_0 False) (map_of [(1, (1, True))]))"
proof -
  have c: "state (convert_to_candidate late_0 False) = Some Candidate"
    and n: "num_servers (convert_to_candidate late_0 False) = 3"
    and p: "proxies (convert_to_candidate late_0 False) = [1, 2]"
    by (simp_all add: late_0_def convert_to_candidate_def restore_def init_server_def
        transit_state_def new_role_def)
  from candidate_becomes_leader [OF c, of "map_of [(1, (1, True))]"] c n p
  show ?thesis by simp
qed

text \<open>
  With three replicas the specification's threshold \<open>\<lceil>3/2\<rceil> + 1\<close> is 3, the code's is 2,
  and a Candidate with two votes (its own and one peer's) becomes Leader.
\<close>

theorem majority_of_three:
  "spec_majority 3 = 3 \<and> majority (convert_to_candidate late_0 False) = 2
   \<and> snd (count_votes (map_of [(1, (1, True))]) [1, 2] (1, 1)) = 2
   \<and> isLeader (elect_leader (convert_to_candidate late_0 False) (map_of [(1, (1, True))]))"
  by (simp add: late_0_def majority_def init_server_def spec_majority_def elect_leader_def
      convert_to_candidate_def restore_def transit_state_def new_role_def isLeader_def Let_def)

subsection \<open>The lock on the return paths of appendEntries\<close>

lemma appendEntries_success_releases:
  "\<not> lock s \<Longrightarrow> appendEntries s tm prev_index prev_term entries lc = (Return (t, True), s') \<Longrightarrow>
   \<not> lock s'"
  by (auto simp: appendEntries_def commit_and_apply_def Let_def
      split: if_splits option.splits log_result.splits prod.splits)

lemma requestVote_releases:
  "\<not> lock s \<Longrightarrow> requestVote s tm cid li lt = (Return rep, s') \<Longrightarrow> \<not> lock s'"
  by (auto simp: requestVote_def Let_def split: if_splits option.splits)

lemma appendEntries_mismatch_holds_lock:
  assumes "\<not> lock s" and "\<not> is_crashed s" and "state s = Some r" and "current_term s \<le> tm"
    and "entries \<noteq> []" and "prev_mismatch (logs s) prev_index prev_term"
  shows "lock (snd (appendEntries s tm prev_index prev_term entries lc))"
proof -
  let ?s2 = "s\<lparr>lock := True, state := Some (on_AppendEntries r)\<rparr>"
  have le: "current_term ?s2 \<le> tm" using assms(4) by simp
  note c = check_term_pass [OF le]
  show ?thesis
    using assms(1-3,5,6) c
    by (simp add: appendEntries_def Let_def reconcile_def)
qed

lemmas handler_defs =
  appendEntries_def requestVote_def restore_def init_server_def transit_state_def new_role_def
  check_term_def on_AppendEntries_def on_RequestVote_def commit_and_apply_def reconcile_def
  prev_mismatch_def assign_from_def py_get_def py_slice_from_def py_range_def
  surf_updatefile_def tuple_le_def last_log_term_def Let_def

lemma late_0_eq:
  "late_0 =
     \<lparr>surfstore = [], num_servers = 3, proxies = [1, 2], server_id = 0, current_term = 0,
      voted_for = None, logs = [], commit_index = 0, last_applied = 0, lock = False,
      num_up = 1, is_crashed = False, state = Some (Follower False)\<rparr>"
  by (simp add: late_0_def handler_defs)

text \<open>
  Claim C10 says that every return path of \<^verbatim>\<open>appendEntries\<close> that took the lock releases
  it, the reply (current term, False) on a failed consistency check included. On the
  code that path keeps the lock: a restored Follower with an empty log that receives one
  entry with \<open>prev_index = 1\<close> replies (1, False) and is left with its lock held, and
  every later \<^verbatim>\<open>requestVote\<close> or \<^verbatim>\<open>appendEntries\<close> is answered \<open>(-1, False)\<close>.
\<close>

theorem mismatch_return_keeps_lock:
  "appendEntries late_0 1 1 1 [(1, (''a'', 1, [''h'']))] 0 =
     (Return (1, False),
      \<lparr>surfstore = [], num_servers = 3, proxies = [1, 2], server_id = 0, current_term = 1,
       voted_for = None, logs = [], commit_index = 0, last_applied = 0, lock = True,
       num_up = 1, is_crashed = False, state = Some (Follower False)\<rparr>)
   \<and> fst (requestVote
      \<lparr>surfstore = [], num_servers = 3, proxies = [1, 2], server_id = 0, current_term = 1,
       voted_for = None, logs = [], commit_index = 0, last_applied = 0, lock = True,
       num_up = 1, is_crashed = False, state = Some (Follower False)\<rparr> 2 1 0 0) = Return (- 1, False)
   \<and> fst (appendEntries
      \<lparr>surfstore = [], num_servers = 3, proxies = [1, 2], server_id = 0, current_term = 1,
       voted_for = None, logs = [], commit_index = 0, last_applied = 0, lock = True,
       num_up = 1, is_crashed = False, state = Some (Follower False)\<rparr> 1 0 0 [(1, (''a'', 1, [''h'']))] 0)
       = Return (- 1, False)"
  by (simp add: late_0_eq handler_defs)

subsection \<open>The receiver's log after appendEntries\<close>

lemma find_conflict_keeps_prefix:
  "0 \<le> prev \<Longrightarrow> prev \<le> index \<Longrightarrow>
   \<exists>lg'. find_conflict lg index es = Return lg' \<and> take (nat prev) lg' = take (nat prev) lg"
proof (induction es arbitrary: index)
  case Nil
  show ?case by simp
next
  case (Cons e es)
  from Cons.prems have i: "prev \<le> index + 1" by simp
  from Cons.IH [OF Cons.prems(1) i] obtain lg' where
    r: "find_conflict lg (index + 1) es = Return lg'" "take (nat prev) lg' = take (nat prev) lg"
    by blast
  show ?case
  proof (cases "index < int (length lg)")
    case False
    with r show ?thesis by simp
  next
    case True
    with Cons.prems have g: "py_get lg index = Some (lg ! nat index)"
      by (simp add: py_get_def)
    have m: "min (nat prev) (py_slice_from lg index) = nat prev"
      using Cons.prems True by (simp add: py_slice_from_def)
    show ?thesis
    proof (cases "fst (lg ! nat index) \<noteq> fst e")
      case True
      with \<open>index < int (length lg)\<close> g m show ?thesis by simp
    next
      case False
      with \<open>index < int (length lg)\<close> g r show ?thesis by simp
    qed
  qed
qed

text \<open>
  Whatever the conflict loop does, the log after the \<^verbatim>\<open>if entries:\<close> block is the log
  up to \<open>prev_index\<close> followed by the entries of the request.
\<close>

lemma reconcile_replaces_suffix:
  assumes "0 \<le> prev_index" and "\<not> prev_mismatch lg prev_index prev_term"
  shows "reconcile lg prev_index prev_term entries = Updated (take (nat prev_index) lg @ entries)"
proof -
  from find_conflict_keeps_prefix [OF assms(1) order_refl, of lg entries] obtain lg' where
    r: "find_conflict lg prev_index entries = Return lg'"
       "take (nat prev_index) lg' = take (nat prev_index) lg"
    by blast
  have "assign_from lg' prev_index entries = take (nat prev_index) lg' @ entries"
    using assms(1) by (simp add: assign_from_def py_slice_from_def min_def)
  with r assms(2) show ?thesis by (simp add: reconcile_def)
qed

lemma classical_walk_covering:
  "length old \<le> length new \<Longrightarrow>
   (\<forall>i < length old. fst (old ! i) = fst (new ! i) \<longrightarrow> old ! i = new ! i) \<Longrightarrow>
   classical_walk old new = new"
proof (induction old new rule: classical_walk.induct)
  case (1 old)
  then show ?case by simp
next
  case (2 y new)
  then show ?case by simp
next
  case (3 x old y new)
  show ?case
  proof (cases "fst x \<noteq> fst y")
    case True
    then show ?thesis by simp
  next
    case False
    from "3.prems"(2) False have xy: "x = y" by fastforce
    have l: "length old \<le> length new" using "3.prems"(1) by simp
    have a: "\<forall>i < length old. fst (old ! i) = fst (new ! i) \<longrightarrow> old ! i = new ! i"
    proof (intro allI impI)
      fix i assume "i < length old" and "fst (old ! i) = fst (new ! i)"
      with "3.prems"(2) [rule_format, of "Suc i"] show "old ! i = new ! i" by simp
    qed
    from "3.IH" [OF _ l a] False xy show ?thesis by simp
  qed
qed

text \<open>
  The code agrees with the classical rule when the entries of the request reach at least
  to the end of the receiver's log and entries of equal term at equal index are equal.
\<close>

lemma reconcile_classical_when_covering:
  assumes "0 \<le> prev_index" and "\<not> prev_mismatch lg prev_index prev_term"
    and "length lg \<le> nat prev_index + length entries"
    and "\<forall>i < length lg - nat prev_index.
           fst (lg ! (nat prev_index + i)) = fst (entries ! i) \<longrightarrow> lg ! (nat prev_index + i) = entries ! i"
  shows "reconcile lg prev_index prev_term entries
           = Updated (classical_reconcile lg (nat prev_index) entries)"
proof -
  have "classical_walk (drop (nat prev_index) lg) entries = entries"
    using assms(3,4) by (intro classical_walk_covering) auto
  with reconcile_replaces_suffix [OF assms(1,2)] show ?thesis
    by (simp add: classical_reconcile_def)
qed

text \<open>
  Claim C8 says that the conflict loop followed by \<^verbatim>\<open>self.logs[prev_index:] = entries\<close>
  gives the log of the classical rule for every log, validated \<open>prev_index\<close> and entries.
  On the code a request that carries fewer entries than the receiver holds beyond
  \<open>prev_index\<close>, none of them conflicting, cuts the receiver's log: with a log of two
  entries, \<open>prev_index = 0\<close> and the first of the two as the only entry sent, the code
  leaves one entry and the classical rule keeps both.
\<close>

theorem suffix_assignment_drops_entries:
  "\<not> prev_mismatch [(1, (''a'', 1, [''h''])), (1, (''a'', 2, [''k'']))] 0 0
   \<and> reconcile [(1, (''a'', 1, [''h''])), (1, (''a'', 2, [''k'']))] 0 0 [(1, (''a'', 1, [''h'']))]
       = Updated [(1, (''a'', 1, [''h'']))]
   \<and> classical_reconcile [(1, (''a'', 1, [''h''])), (1, (''a'', 2, [''k'']))] 0 [(1, (''a'', 1, [''h'']))]
       = [(1, (''a'', 1, [''h''])), (1, (''a'', 2, [''k'']))]"
  by (simp add: reconcile_def prev_mismatch_def assign_from_def py_get_def py_slice_from_def
      classical_reconcile_def)

subsection \<open>Commit index, applied index and the length of the log\<close>

lemma late_1_eq:
  "late_1 =
     \<lparr>surfstore = [], num_servers = 3, proxies = [1, 2], server_id = 0, current_term = 1,
      voted_for = None,
      logs = [(1, (''a'', 1, [''h''])), (1, (''a'', 2, [''k''])), (1, (''b'', 1, []))],
      commit_index = 0, last_applied = 0, lock = False,
      num_up = 1, is_crashed = False, state = Some (Follower False)\<rparr>"
  by (simp add: late_1_def late_0_eq handler_defs)

lemma late_2_eq:
  "late_2 =
     \<lparr>surfstore = [(''a'', (2, [''k'']))], num_servers = 3, proxies = [1, 2], server_id = 0,
      current_term = 1, voted_for = None,
      logs = [(1, (''a'', 1, [''h''])), (1, (''a'', 2, [''k''])), (1, (''b'', 1, []))],
      commit_index = 2, last_applied = 2, lock = False,
      num_up = 1, is_crashed = False, state = Some (Follower True)\<rparr>"
  by (simp add: late_2_def late_1_eq handler_defs upto.simps)

lemma late_3_eq:
  "late_3 =
     \<lparr>surfstore = [(''a'', (2, [''k'']))], num_servers = 3, proxies = [1, 2], server_id = 0,
      current_term = 1, voted_for = None, logs = [(1, (''a'', 1, [''h'']))],
      commit_index = 2, last_applied = 2, lock = False,
      num_up = 1, is_crashed = False, state = Some (Follower True)\<rparr>"
  by (simp add: late_3_def late_2_eq handler_defs)

lemma late_4_eq:
  "late_4 =
     \<lparr>surfstore = [(''a'', (2, [''k'']))], num_servers = 3, proxies = [1, 2], server_id = 0,
      current_term = 1, voted_for = None, logs = [(1, (''a'', 1, [''h'']))],
      commit_index = 1, last_applied = 2, lock = False,
      num_up = 1, is_crashed = False, state = Some (Follower True)\<rparr>"
  by (simp add: late_4_def late_3_eq handler_defs)

text \<open>
  Every step that leaves the log at least as long as the commit index keeps the bounds
  and does not lower the commit index. Only the log being cut below the commit index, in
  \<^verbatim>\<open>appendEntries\<close>, breaks them.
\<close>

lemma py_get_Some_less: "py_get xs i = Some x \<Longrightarrow> i < int (length xs)"
  by (auto simp: py_get_def split: if_splits)

lemma find_commit_result:
  "find_commit s vs cs = Return r \<Longrightarrow>
     r = commit_index s \<or> (r \<in> set cs \<and> r \<le> int (length (logs s)))"
proof (induction cs)
  case Nil
  then show ?case by simp
next
  case (Cons x cs)
  show ?case
  proof (cases "find_commit s vs (x # cs) = find_commit s vs cs")
    case True
    with Cons show ?thesis by auto
  next
    case False
    then obtain e where "py_get (logs s) (x - 1) = Some e" and "r = x"
      using Cons.prems by (auto split: if_splits option.splits)
    then show ?thesis using py_get_Some_less [of "logs s" "x - 1" e] by simp
  qed
qed

lemma advance_commit_result:
  "advance_commit s mt = Return r \<Longrightarrow>
     r = commit_index s \<or> (commit_index s < r \<and> r \<le> int (length (logs s)))"
proof -
  assume a: "advance_commit s mt = Return r"
  then obtain m where "find_commit s (map snd mt) (py_range_down m (commit_index s)) = Return r"
    by (auto simp: advance_commit_def split: option.splits)
  from find_commit_result [OF this] show ?thesis
    by (auto simp: py_range_down_def)
qed

lemma append_entry_bounds:
  assumes "append_entry s nx mt reply = (Return (), t)" and "bounds s"
  shows "bounds t \<and> commit_index s \<le> commit_index t"
proof -
  from assms(1) obtain rv r where
    rv: "send_entries (logs s) reply (proxies s)
           \<lparr>next_indexes = nx, match_indexes = mt, latest_term = current_term s, up = 1\<rparr> = (None, rv)"
    and r: "advance_commit (s\<lparr>state := Some (Leader (next_indexes rv) (match_indexes rv)),
                               num_up := up rv\<rparr>) (match_indexes rv) = Return r"
    and t: "logs t = logs s \<and> last_applied t = last_applied s \<and> commit_index t = r"
    by (auto simp: append_entry_def Let_def transit_state_def
        split: prod.splits option.splits outcome.splits if_splits)
  from advance_commit_result [OF r] t assms(2) show ?thesis
    by (auto simp: bounds_def)
qed

lemma apply_cmds_total: "\<exists>e fi'. apply_cmds fi lg idxs = (e, fi')"
  by (cases "apply_cmds fi lg idxs") auto

lemma commit_and_apply_bounds:
  assumes "last_applied s \<le> c" and "c \<le> commit_index s" and "c \<le> int (length (logs s))"
    and "commit_index s \<le> int (length (logs s)) \<or> lc > commit_index s"
  shows "bounds (snd (commit_and_apply s lc)) \<and> c \<le> commit_index (snd (commit_and_apply s lc))
         \<and> logs (snd (commit_and_apply s lc)) = logs s"
proof -
  define s1 where "s1 = (if lc > commit_index s
                then s\<lparr>commit_index := min lc (int (length (logs s)))\<rparr> else s)"
  have b1: "commit_index s1 \<le> int (length (logs s1))" and c1: "c \<le> commit_index s1"
    and l1: "logs s1 = logs s" and a1: "last_applied s1 = last_applied s"
    using assms by (auto simp: s1_def)
  obtain e fi where ap:
    "apply_cmds (surfstore s1) (logs s1) (py_range (last_applied s1) (commit_index s1)) = (e, fi)"
    using apply_cmds_total by blast
  have "snd (commit_and_apply s lc) =
          (if commit_index s1 > last_applied s1 then
             (case e of Some x \<Rightarrow> s1\<lparr>surfstore := fi\<rparr>
              | None \<Rightarrow> s1\<lparr>surfstore := fi, last_applied := commit_index s1, lock := False\<rparr>)
           else s1\<lparr>lock := False\<rparr>)"
    using ap by (simp add: commit_and_apply_def s1_def [symmetric] Let_def split: option.splits)
  then show ?thesis
    using b1 c1 l1 a1 assms(1) by (auto simp: bounds_def split: option.splits)
qed

lemma check_term_fields:
  "logs (snd (check_term s tm)) = logs s \<and> commit_index (snd (check_term s tm)) = commit_index s
   \<and> last_applied (snd (check_term s tm)) = last_applied s"
  by (simp add: check_term_def transit_state_def)

lemma appendEntries_bounds:
  assumes "bounds s"
    and "commit_index s \<le> int (length (logs (snd (appendEntries s tm prev_index prev_term entries lc))))"
  shows "bounds (snd (appendEntries s tm prev_index prev_term entries lc))
       \<and> commit_index s \<le> commit_index (snd (appendEntries s tm prev_index prev_term entries lc))"
proof (cases "lock s \<or> is_crashed s \<or> state s = None")
  case True
  with assms(1) show ?thesis
    by (auto simp: appendEntries_def bounds_def Let_def)
next
  case False
  then obtain r where r: "state s = Some r" and nl: "\<not> lock s" and nc: "\<not> is_crashed s" by auto
  define s3 where "s3 = snd (check_term (s\<lparr>lock := True, state := Some (on_AppendEntries r)\<rparr>) tm)"
  have f3: "logs s3 = logs s" "commit_index s3 = commit_index s" "last_applied s3 = last_applied s"
    using check_term_fields [of "s\<lparr>lock := True, state := Some (on_AppendEntries r)\<rparr>" tm]
    by (simp_all add: s3_def)
  have b3: "bounds s3" using assms(1) f3 by (simp add: bounds_def)
  show ?thesis
  proof (cases "fst (check_term (s\<lparr>lock := True, state := Some (on_AppendEntries r)\<rparr>) tm)")
    case False
    with r nl nc b3 f3 show ?thesis
      by (simp add: appendEntries_def Let_def s3_def [symmetric] bounds_def)
  next
    case True
    show ?thesis
    proof (cases "entries \<noteq> []")
      case False
      with True r nl nc have e: "snd (appendEntries s tm prev_index prev_term entries lc)
                 = snd (commit_and_apply s3 lc)"
        by (simp add: appendEntries_def Let_def s3_def [symmetric])
      from b3 have "last_applied s3 \<le> commit_index s3" and "commit_index s3 \<le> int (length (logs s3))"
        by (simp_all add: bounds_def)
      from commit_and_apply_bounds [OF this(1) order_refl this(2), of lc] this(2) f3
      show ?thesis unfolding e by simp
    next
      case ne: True
      show ?thesis
      proof (cases "reconcile (logs s3) prev_index prev_term entries")
        case Mismatch
        with True ne r nl nc b3 f3 show ?thesis
          by (simp add: appendEntries_def Let_def s3_def [symmetric] bounds_def)
      next
        case (Failed x)
        with True ne r nl nc b3 f3 show ?thesis
          by (simp add: appendEntries_def Let_def s3_def [symmetric] bounds_def)
      next
        case (Updated lg)
        with True ne r nl nc have e: "snd (appendEntries s tm prev_index prev_term entries lc)
                 = snd (commit_and_apply (s3\<lparr>logs := lg\<rparr>) lc)"
          by (simp add: appendEntries_def Let_def s3_def [symmetric])
        have la: "last_applied (s3\<lparr>logs := lg\<rparr>) \<le> commit_index s"
          using b3 f3 by (simp add: bounds_def)
        have cc: "commit_index s \<le> commit_index (s3\<lparr>logs := lg\<rparr>)" using f3 by simp
        have lgs: "logs (snd (commit_and_apply (s3\<lparr>logs := lg\<rparr>) lc)) = lg"
          by (simp add: commit_and_apply_def Let_def split: prod.splits option.splits)
        with assms(2) have cl: "commit_index s \<le> int (length (logs (s3\<lparr>logs := lg\<rparr>)))"
          unfolding e by simp
        have d: "commit_index (s3\<lparr>logs := lg\<rparr>) \<le> int (length (logs (s3\<lparr>logs := lg\<rparr>)))
                  \<or> lc > commit_index (s3\<lparr>logs := lg\<rparr>)"
          using cl f3 by simp
        from commit_and_apply_bounds [OF la cc cl d]
        show ?thesis unfolding e by simp
      qed
    qed
  qed
qed

lemma requestVote_fields:
  "logs (snd (requestVote s tm cid li lt)) = logs s
   \<and> commit_index (snd (requestVote s tm cid li lt)) = commit_index s
   \<and> last_applied (snd (requestVote s tm cid li lt)) = last_applied s"
  by (simp add: requestVote_def Let_def check_term_def transit_state_def split: option.splits)

lemma updatefile_wait_bounds:
  assumes "updatefile_wait s p f v bl = Some (r, t)" and "bounds s"
  shows "bounds t \<and> commit_index t = commit_index s"
proof (cases "isLeader s")
  case True
  with assms(1) have p: "p \<le> commit_index s"
    by (auto simp: updatefile_wait_eq split: if_splits)
  from assms(1) True p have "logs t = logs s \<and> commit_index t = commit_index s \<and> last_applied t = p"
    by (auto simp: updatefile_wait_eq Let_def split: if_splits outcome.splits)
  with p assms(2) show ?thesis by (simp add: bounds_def)
next
  case False
  with assms show ?thesis by (simp add: updatefile_wait_eq)
qed

lemma step_bounds:
  assumes "step (s, w) (t, w')" and "bounds s" and "commit_index s \<le> int (length (logs t))"
  shows "bounds t \<and> commit_index s \<le> commit_index t"
  using assms(1)
proof (cases rule: step.cases)
  case do_crash
  with assms(2) show ?thesis by (simp add: crash_def transit_state_def bounds_def)
next
  case do_restore
  with assms(2) show ?thesis by (simp add: restore_def transit_state_def bounds_def)
next
  case (rpc_requestVote tm cid li lt)
  with assms(2) requestVote_fields [of s tm cid li lt] show ?thesis by (simp add: bounds_def)
next
  case (rpc_appendEntries tm prev_index prev_term entries lc)
  with assms(2,3) appendEntries_bounds [of s tm prev_index prev_term entries lc]
  show ?thesis by simp
next
  case (follower_wakes b)
  with assms(2) show ?thesis by (simp add: convert_to_candidate_def transit_state_def bounds_def)
next
  case (candidate_round reply)
  with assms(2) show ?thesis by (simp add: elect_leader_def Let_def transit_state_def bounds_def)
next
  case (leader_round nx mt reply)
  with assms(2) append_entry_bounds [of s nx mt reply t] show ?thesis by simp
next
  case (client_append f v bl p)
  with assms(2) show ?thesis
    by (auto simp: updatefile_append_def Let_def bounds_def split: if_splits)
next
  case (client_wait p f v bl r)
  with assms(2) updatefile_wait_bounds [of s p f v bl r t] show ?thesis by simp
qed

text \<open>
  Claim C6 says that in every reachable state \<open>last_applied \<le> commit_index \<le> len(logs)\<close>
  and that \<open>commit_index\<close> never decreases. On the code the late one-entry request cuts
  a log of three entries, two of them committed and applied, down to one entry: the
  reachable state \<open>late_3\<close> has commit index 2 and a log of length 1, and the next
  heartbeat takes the commit index from 2 down to 1, below the applied index 2.
\<close>

theorem late_appendEntries_breaks_invariant:
  "reachable [1, 2] 0 3 (late_3, []) \<and> commit_index late_3 = 2 \<and> int (length (logs late_3)) = 1
   \<and> step (late_3, []) (late_4, []) \<and> commit_index late_4 = 1 \<and> last_applied late_4 = 2"
proof -
  have r0: "reachable [1, 2] 0 3 (late_0, [])"
    unfolding late_0_def
    by (rule reachable.after [OF reachable.start], rule step.do_restore) (simp add: init_server_def)
  have r1: "reachable [1, 2] 0 3 (late_1, [])"
    unfolding late_1_def by (rule reachable.after [OF r0], rule step.rpc_appendEntries)
  have r2: "reachable [1, 2] 0 3 (late_2, [])"
    unfolding late_2_def by (rule reachable.after [OF r1], rule step.rpc_appendEntries)
  have r3: "reachable [1, 2] 0 3 (late_3, [])"
    unfolding late_3_def by (rule reachable.after [OF r2], rule step.rpc_appendEntries)
  have s4: "step (late_3, []) (late_4, [])"
    unfolding late_4_def by (rule step.rpc_appendEntries)
  from r3 s4 show ?thesis by (simp add: late_3_eq late_4_eq)
qed

subsection \<open>The commit rule of the Leader\<close>

lemma count_matches_filter:
  "count_matches vs M = int (length (filter (\<lambda>v. M \<le> v) vs))"
proof -
  have "foldl (\<lambda>n match_index. n + (if M \<le> match_index then 1 else 0)) a vs
          = a + int (length (filter (\<lambda>v. M \<le> v) vs))" for a :: int
    by (induction vs arbitrary: a) auto
  then show ?thesis by (simp add: count_matches_def)
qed

lemma py_max_Max: "py_max (x # xs) = Some (Max (set (x # xs)))"
  using Max.set_eq_fold [of x xs] by simp

text \<open>
  The commit loop over a descending list of indices inside the log returns the first,
  hence the greatest, index of the list that passes both tests, and the old commit index
  when none does.
\<close>

lemma find_commit_scan:
  fixes s :: server and vs :: "int list"
  defines "P \<equiv> \<lambda>M. majority s - 1 \<le> count_matches vs M
                  \<and> fst (logs s ! nat (M - 1)) = current_term s"
  assumes "\<forall>x \<in> set cs. 1 \<le> x \<and> x \<le> int (length (logs s))" and "sorted (rev cs)"
  shows "\<exists>r. find_commit s vs cs = Return r \<and>
           (if \<exists>M \<in> set cs. P M then r \<in> set cs \<and> P r \<and> (\<forall>M \<in> set cs. P M \<longrightarrow> M \<le> r)
            else r = commit_index s)"
  using assms(2,3)
proof (induction cs)
  case Nil
  show ?case by simp
next
  case (Cons x cs)
  from Cons.prems(1) have g: "py_get (logs s) (x - 1) = Some (logs s ! nat (x - 1))"
    by (simp add: py_get_def)
  from Cons.prems(2) have top: "\<forall>y \<in> set cs. y \<le> x" and srt: "sorted (rev cs)"
    by (auto simp: sorted_append)
  from Cons.prems(1) have rng: "\<forall>y \<in> set cs. 1 \<le> y \<and> y \<le> int (length (logs s))"
    by simp
  show ?case
  proof (cases "P x")
    case True
    then have "find_commit s vs (x # cs) = Return x"
      using g by (simp add: P_def)
    with True top show ?thesis by auto
  next
    case False
    then have skip: "find_commit s vs (x # cs) = find_commit s vs cs"
      using g by (auto simp: P_def)
    from Cons.IH [OF rng srt] obtain r where
      r: "find_commit s vs cs = Return r"
         "(if \<exists>M \<in> set cs. P M then r \<in> set cs \<and> P r \<and> (\<forall>M \<in> set cs. P M \<longrightarrow> M \<le> r)
           else r = commit_index s)"
      by blast
    have ex: "(\<exists>M \<in> set (x # cs). P M) \<longleftrightarrow> (\<exists>M \<in> set cs. P M)"
      using False by auto
    show ?thesis
    proof (cases "\<exists>M \<in> set cs. P M")
      case True
      with r have "r \<in> set cs \<and> P r \<and> (\<forall>M \<in> set cs. P M \<longrightarrow> M \<le> r)"
        by simp
      with False have "r \<in> set (x # cs) \<and> P r \<and> (\<forall>M \<in> set (x # cs). P M \<longrightarrow> M \<le> r)"
        by auto
      with ex True r(1) show ?thesis unfolding skip by auto
    next
      case False
      with r have "r = commit_index s" by simp
      with ex False r(1) show ?thesis unfolding skip by auto
    qed
  qed
qed

text \<open>
  With at least two replicas, at least one peer in \<^verbatim>\<open>match_indexes\<close>, every match index
  inside the log and a commit index that is not negative, the commit rule returns the
  highest \<open>M\<close> above the commit index whose entry has the current term and which at least
  \<open>majority - 1\<close> peers match, and the old commit index when there is none.
\<close>

lemma advance_commit_highest:
  fixes s :: server and mt :: index_map
  defines "Q \<equiv> \<lambda>M. commit_index s < M \<and> M \<le> int (length (logs s))
                  \<and> fst (logs s ! nat (M - 1)) = current_term s
                  \<and> num_servers s div 2 + 1 \<le> int (length (filter (\<lambda>p. M \<le> snd p) mt)) + 1"
  assumes "2 \<le> num_servers s" and "mt \<noteq> []"
    and "\<forall>p \<in> set mt. snd p \<le> int (length (logs s))" and "0 \<le> commit_index s"
  shows "\<exists>r. advance_commit s mt = Return r \<and>
           (if \<exists>M. Q M then Q r \<and> (\<forall>M. Q M \<longrightarrow> M \<le> r) else r = commit_index s)"
proof -
  define vs where "vs = map snd mt"
  define m where "m = Max (set vs)"
  define cs where "cs = py_range_down m (commit_index s)"
  define P where "P = (\<lambda>M. majority s - 1 \<le> count_matches vs M
                  \<and> fst (logs s ! nat (M - 1)) = current_term s)"
  have ne: "vs \<noteq> []" using assms(3) by (simp add: vs_def)
  have m_in: "m \<in> set vs" unfolding m_def using ne by (intro Max_in) auto
  then have m_le: "m \<le> int (length (logs s))" using assms(4) by (auto simp: vs_def)
  have cnt: "count_matches vs M = int (length (filter (\<lambda>p. M \<le> snd p) mt))" for M
    by (simp add: count_matches_filter filter_map o_def vs_def)
  have set_cs: "set cs = {commit_index s + 1 .. m}" by (simp add: cs_def py_range_down_def)
  have rng: "\<forall>x \<in> set cs. 1 \<le> x \<and> x \<le> int (length (logs s))"
    using m_le assms(5) by (auto simp: set_cs)
  have srt: "sorted (rev cs)" by (simp add: cs_def py_range_down_def)
  have half: "1 \<le> num_servers s div 2" using assms(2) by simp
  have Q_iff: "Q M \<longleftrightarrow> M \<in> set cs \<and> P M" for M
  proof
    assume q: "Q M"
    then have "num_servers s div 2 \<le> int (length (filter (\<lambda>p. M \<le> snd p) mt))"
      by (simp add: Q_def)
    with half have "filter (\<lambda>p. M \<le> snd p) mt \<noteq> []" by auto
    then obtain p where "p \<in> set mt" and "M \<le> snd p"
      by (metis (mono_tags, lifting) filter_False)
    then have "snd p \<in> set vs" and "M \<le> snd p" by (auto simp: vs_def)
    moreover from this have "snd p \<le> Max (set vs)" by (intro Max_ge) simp_all
    ultimately have "M \<le> m" unfolding m_def by linarith
    with q show "M \<in> set cs \<and> P M"
      by (simp add: set_cs Q_def P_def cnt majority_def)
  next
    assume "M \<in> set cs \<and> P M"
    with m_le show "Q M" by (simp add: set_cs Q_def P_def cnt majority_def)
  qed
  from find_commit_scan [OF rng srt, of vs] obtain r where
    r: "find_commit s vs cs = Return r"
       "(if \<exists>M \<in> set cs. P M then r \<in> set cs \<and> P r \<and> (\<forall>M \<in> set cs. P M \<longrightarrow> M \<le> r)
         else r = commit_index s)"
    unfolding P_def by blast
  obtain v vs' where vv: "vs = v # vs'" using ne by (cases vs) auto
  have a: "advance_commit s mt = Return r"
    using r(1) py_max_Max [of v vs'] vv
    by (simp add: advance_commit_def vs_def [symmetric] cs_def m_def)
  have ex: "(\<exists>M. Q M) \<longleftrightarrow> (\<exists>M \<in> set cs. P M)" using Q_iff by blast
  show ?thesis
  proof (cases "\<exists>M. Q M")
    case True
    with r(2) ex have "r \<in> set cs \<and> P r" and mx: "\<forall>M \<in> set cs. P M \<longrightarrow> M \<le> r"
      by auto
    then have "Q r" using Q_iff by blast
    moreover have "\<forall>M. Q M \<longrightarrow> M \<le> r" using mx Q_iff by blast
    ultimately show ?thesis using a True by auto
  next
    case False
    with r(2) ex a show ?thesis by auto
  qed
qed

lemma set_update_subset: "set (AList.update k v al) \<subseteq> insert (k, v) (set al)"
  by (induction al) auto

text \<open>The send loop keeps \<^verbatim>\<open>match_indexes\<close> non-empty and inside the log.\<close>

lemma send_entries_matches:
  "send_entries lg reply ps rv = (None, rv') \<Longrightarrow>
   match_indexes rv \<noteq> [] \<Longrightarrow>
   \<forall>p \<in> set (match_indexes rv). snd p \<le> int (length lg) \<Longrightarrow>
   match_indexes rv' \<noteq> [] \<and> (\<forall>p \<in> set (match_indexes rv'). snd p \<le> int (length lg))"
proof (induction ps arbitrary: rv)
  case Nil
  then show ?case by simp
next
  case (Cons p ps)
  from Cons.prems(1) obtain ni where ni: "map_of (next_indexes rv) p = Some ni"
    by (auto split: option.splits)
  from Cons.prems(1) ni obtain pt where pt: "prev_term_of lg (ni - 1) = Some pt"
    by (auto split: option.splits)
  show ?case
  proof (cases "reply p")
    case None
    with Cons.prems ni pt have "send_entries lg reply ps rv = (None, rv')"
      by simp
    from Cons.IH [OF this Cons.prems(2,3)] show ?thesis .
  next
    case (Some r)
    show ?thesis
    proof (cases "snd r")
      case True
      define rv2 where "rv2 =
         rv\<lparr>latest_term := max (latest_term rv) (fst r),
            next_indexes := AList.update p (int (length lg) + 1) (next_indexes rv),
            match_indexes := AList.update p (int (length lg)) (match_indexes rv),
            up := up rv + 1\<rparr>"
      from Cons.prems(1) ni pt Some True have run: "send_entries lg reply ps rv2 = (None, rv')"
        by (simp add: rv2_def Let_def)
      have ne: "match_indexes rv2 \<noteq> []" by (simp add: rv2_def)
      have bd: "\<forall>q \<in> set (match_indexes rv2). snd q \<le> int (length lg)"
        using Cons.prems(3) set_update_subset [of p "int (length lg)" "match_indexes rv"]
        by (auto simp: rv2_def)
      from Cons.IH [OF run ne bd] show ?thesis .
    next
      case False
      define rv2 where "rv2 =
         (if fst r \<noteq> - 1 then
            rv\<lparr>latest_term := max (latest_term rv) (fst r),
               next_indexes := AList.update p (ni - 1) (next_indexes rv), up := up rv + 1\<rparr>
          else rv\<lparr>latest_term := max (latest_term rv) (fst r)\<rparr>)"
      from Cons.prems(1) ni pt Some False have run: "send_entries lg reply ps rv2 = (None, rv')"
        by (cases "fst r \<noteq> - 1") (simp_all add: rv2_def Let_def)
      have ne: "match_indexes rv2 \<noteq> []" using Cons.prems(2) by (simp add: rv2_def)
      have bd: "\<forall>q \<in> set (match_indexes rv2). snd q \<le> int (length lg)"
        using Cons.prems(3) by (simp add: rv2_def)
      from Cons.IH [OF run ne bd] show ?thesis .
    qed
  qed
qed

text \<open>
  A whole replication round of a Leader with at least one peer, in a cluster of at least
  two: when the send loop completes with loop variables \<open>rv\<close>, the round returns and
  the commit index after it is the highest \<open>M\<close> above the old one such that the entry at
  \<open>M\<close> has the current term and the peers whose match index is at least \<open>M\<close>, plus the
  leader, are a majority; it is the old commit index when no such \<open>M\<close> exists.
\<close>

lemma append_entry_commit:
  fixes s :: server and rv :: round_vars
  defines "Q \<equiv> \<lambda>M. commit_index s < M \<and> M \<le> int (length (logs s))
                  \<and> fst (logs s ! nat (M - 1)) = current_term s
                  \<and> num_servers s div 2 + 1
                      \<le> int (length (filter (\<lambda>p. M \<le> snd p) (match_indexes rv))) + 1"
  assumes "send_entries (logs s) reply (proxies s)
             \<lparr>next_indexes = nx, match_indexes = mt, latest_term = current_term s, up = 1\<rparr> = (None, rv)"
    and "2 \<le> num_servers s" and "mt \<noteq> []"
    and "\<forall>p \<in> set mt. snd p \<le> int (length (logs s))" and "0 \<le> commit_index s"
  shows "\<exists>s'. append_entry s nx mt reply = (Return (), s') \<and>
           (if \<exists>M. Q M then Q (commit_index s') \<and> (\<forall>M. Q M \<longrightarrow> M \<le> commit_index s')
            else commit_index s' = commit_index s)"
proof -
  define s1 where
    "s1 = s\<lparr>state := Some (Leader (next_indexes rv) (match_indexes rv)), num_up := up rv\<rparr>"
  from send_entries_matches [OF assms(2)] assms(4,5)
  have ne: "match_indexes rv \<noteq> []"
    and bd: "\<forall>p \<in> set (match_indexes rv). snd p \<le> int (length (logs s1))"
    by (simp_all add: s1_def)
  have n: "2 \<le> num_servers s1" and c: "0 \<le> commit_index s1"
    using assms(3,6) by (simp_all add: s1_def)
  have Qeq: "Q = (\<lambda>M. commit_index s1 < M \<and> M \<le> int (length (logs s1))
                  \<and> fst (logs s1 ! nat (M - 1)) = current_term s1
                  \<and> num_servers s1 div 2 + 1
                      \<le> int (length (filter (\<lambda>p. M \<le> snd p) (match_indexes rv))) + 1)"
    by (simp add: Q_def s1_def)
  from advance_commit_highest [OF n ne bd c] obtain r where
    r: "advance_commit s1 (match_indexes rv) = Return r"
       "(if \<exists>M. Q M then Q r \<and> (\<forall>M. Q M \<longrightarrow> M \<le> r) else r = commit_index s1)"
    unfolding Qeq by blast
  have cs: "commit_index s1 = commit_index s" and ct: "current_term s1 = current_term s"
    by (simp_all add: s1_def)
  have "append_entry s nx mt reply =
          (Return (), if latest_term rv > current_term s
                      then transit_state (s1\<lparr>commit_index := r, current_term := latest_term rv\<rparr>)
                             (Some FollowerC)
                      else s1\<lparr>commit_index := r\<rparr>)"
    using assms(2) r(1) ct by (simp add: append_entry_def Let_def s1_def [symmetric])
  moreover have "commit_index (if latest_term rv > current_term s
                      then transit_state (s1\<lparr>commit_index := r, current_term := latest_term rv\<rparr>)
                             (Some FollowerC)
                      else s1\<lparr>commit_index := r\<rparr>) = r"
    by (simp add: transit_state_def)
  ultimately show ?thesis using r(2) cs by auto
qed

text \<open>The single replica that leads a cluster of one is a reachable state.\<close>

lemma solo_leader_reachable: "reachable [] 0 1 (solo_leader, [(1, ''a'', 1, [''h''])])"
proof -
  let ?s0 = "init_server [] 0 1"
  let ?s1 = "restore ?s0"
  let ?s2 = "convert_to_candidate ?s1 False"
  let ?s3 = "elect_leader ?s2 (map_of [])"
  have r1: "reachable [] 0 1 (?s1, [])"
    by (rule reachable.after [OF reachable.start], rule step.do_restore) (simp add: init_server_def)
  have r2: "reachable [] 0 1 (?s2, [])"
    by (rule reachable.after [OF r1], rule step.follower_wakes)
       (simp_all add: init_server_def restore_def transit_state_def new_role_def)
  have r3: "reachable [] 0 1 (?s3, [])"
    by (rule reachable.after [OF r2], rule step.candidate_round)
       (simp_all add: init_server_def restore_def transit_state_def new_role_def
          convert_to_candidate_def)
  have l3: "\<not> lock ?s3"
    by (simp add: init_server_def restore_def transit_state_def new_role_def
          convert_to_candidate_def elect_leader_def majority_def Let_def)
  have a: "updatefile_append ?s3 ''a'' 1 [''h''] = (Return 1, solo_leader)"
    by (simp add: solo_leader_def updatefile_append_def init_server_def restore_def
          transit_state_def new_role_def convert_to_candidate_def elect_leader_def majority_def
          isLeader_def Let_def)
  show ?thesis
    by (rule reachable.after [OF r3], rule step.client_append [OF l3 a])
qed

lemma solo_leader_eq:
  "solo_leader =
     \<lparr>surfstore = [], num_servers = 1, proxies = [], server_id = 0, current_term = 1,
      voted_for = Some 0, logs = [(1, (''a'', 1, [''h'']))], commit_index = 0, last_applied = 0,
      lock = False, num_up = 1, is_crashed = False, state = Some (Leader [] [])\<rparr>"
  by (simp add: solo_leader_def updatefile_append_def elect_leader_def convert_to_candidate_def
      restore_def init_server_def transit_state_def new_role_def isLeader_def majority_def Let_def)

text \<open>
  Claim C3 says that every replication round of a Leader moves the commit index to the
  highest index above it whose entry has the current term and which a majority holds,
  the leader counted. In a cluster of one the leader alone is the majority, so the entry
  at index 1 of \<open>solo_leader\<close> meets the rule. On the code the round of that leader raises
  ValueError (\<^verbatim>\<open>max\<close> of the empty \<^verbatim>\<open>match_indexes\<close>) and the commit index stays 0.
  For clusters of two or more the rule is \<open>append_entry_commit\<close> above.
\<close>

theorem solo_leader_round_raises:
  "isLeader solo_leader \<and> majority solo_leader = 1 \<and> commit_index solo_leader = 0
   \<and> int (length (logs solo_leader)) = 1 \<and> fst (logs solo_leader ! 0) = current_term solo_leader
   \<and> append_entry solo_leader [] [] (map_of []) = (Raise ValueError, solo_leader)"
  by (simp add: solo_leader_eq isLeader_def majority_def append_entry_def advance_commit_def)

subsection \<open>A write followed by a read on the Leader\<close>

lemma surf_updatefile_Return:
  "surf_updatefile fi f v bl = Return (b, fi') \<Longrightarrow>
     (b \<longrightarrow> map_of fi' f = Some (v, bl)) \<and> (\<not> b \<longrightarrow> fi' = fi)"
  by (auto simp: surf_updatefile_def update_conv' split: option.splits if_splits)

text \<open>
  Claim C9, as the code has it. Let \<^verbatim>\<open>updatefile(f, v, B)\<close> on the Leader return \<open>b\<close>, and
  let a following \<^verbatim>\<open>getfileinfomap\<close> on the same Leader, with no write to the store in
  between, return the map \<open>m\<close>. If the store did not already hold \<open>f \<mapsto> (v, B)\<close> when
  the update was applied, then \<open>m\<close> contains \<open>f \<mapsto> (v, B)\<close> iff \<open>b\<close> is true.
\<close>

theorem updatefile_then_getfileinfomap:
  assumes "updatefile others s f v bl = Some (Return b, s')"
    and "getfileinfomap s'' = Some (Return m)"
    and "surfstore s'' = surfstore s'"
    and "map_of (surfstore (others (snd (updatefile_append s f v bl)))) f \<noteq> Some (v, bl)"
  shows "map_of m f = Some (v, bl) \<longleftrightarrow> b"
proof -
  define s1 where "s1 = others (snd (updatefile_append s f v bl))"
  from assms(1) obtain p where w: "updatefile_wait s1 p f v bl = Some (Return b, s')"
    by (auto simp: updatefile_def s1_def split: if_splits option.splits prod.splits outcome.splits)
  then have u: "surf_updatefile (surfstore s1) f v bl = Return (b, surfstore s')"
    by (auto simp: updatefile_wait_eq Let_def split: if_splits outcome.splits)
  from assms(2,3) have m: "m = surfstore s'"
    by (auto simp: getfileinfomap_eq split: if_splits)
  from assms(4) have n: "map_of (surfstore s1) f \<noteq> Some (v, bl)" by (simp add: s1_def)
  from surf_updatefile_Return [OF u] n show ?thesis unfolding m by auto
qed

lemma both_ack_eq:
  "both_ack
     \<lparr>surfstore = [(''a'', (1, [''h'']))], num_servers = 3, proxies = [1, 2], server_id = 0,
       current_term = 1, voted_for = Some 0,
       logs = [(1, (''a'', 1, [''h''])), (1, (''a'', v, bl))], commit_index = 1,
       last_applied = 1, lock = False, num_up = 3, is_crashed = False,
       state = Some (Leader [(1, 2), (2, 2)] [(1, 1), (2, 1)])\<rparr> =
     \<lparr>surfstore = [(''a'', (1, [''h'']))], num_servers = 3, proxies = [1, 2], server_id = 0,
      current_term = 1, voted_for = Some 0,
      logs = [(1, (''a'', 1, [''h''])), (1, (''a'', v, bl))], commit_index = 2,
      last_applied = 1, lock = False, num_up = 3, is_crashed = False,
      state = Some (Leader [(1, 3), (2, 3)] [(1, 2), (2, 2)])\<rparr>"
  by (simp add: both_ack_def append_entry_def
      prev_term_of_def py_get_def advance_commit_def py_range_down_def count_matches_def
      majority_def Let_def upto.simps)

lemma updatefile_eq:
  "updatefile others s f v bl =
     (if \<not> isLeader s then Some (Raise NotLeader, s)
      else if lock s then None
      else (case updatefile_append s f v bl of
              (Raise x, s1) \<Rightarrow> Some (Raise x, s1)
            | (Return p, s1) \<Rightarrow> updatefile_wait (others s1) p f v bl))"
  by (simp add: updatefile_def busy_wait_eq)

lemma leader_a_leads: "isLeader leader_a" and leader_a_unlocked: "\<not> lock leader_a"
  by (simp_all add: leader_a_def isLeader_def)

lemma append_a_eq:
  "updatefile_append leader_a ''a'' v bl =
     (Return 2,
      \<lparr>surfstore = [(''a'', (1, [''h'']))], num_servers = 3, proxies = [1, 2], server_id = 0,
       current_term = 1, voted_for = Some 0,
       logs = [(1, (''a'', 1, [''h''])), (1, (''a'', v, bl))], commit_index = 1,
       last_applied = 1, lock = False, num_up = 3, is_crashed = False,
       state = Some (Leader [(1, 2), (2, 2)] [(1, 1), (2, 1)])\<rparr>)"
  by (simp add: updatefile_append_def leader_a_def isLeader_def)

theorem updatefile_then_getfileinfomap_witness:
  "updatefile both_ack leader_a ''a'' 2 [''k''] =
     Some (Return True,
       \<lparr>surfstore = [(''a'', (2, [''k'']))], num_servers = 3, proxies = [1, 2], server_id = 0,
        current_term = 1, voted_for = Some 0,
        logs = [(1, (''a'', 1, [''h''])), (1, (''a'', 2, [''k'']))], commit_index = 2,
        last_applied = 2, lock = False, num_up = 3, is_crashed = False,
        state = Some (Leader [(1, 3), (2, 3)] [(1, 2), (2, 2)])\<rparr>)
   \<and> getfileinfomap
       \<lparr>surfstore = [(''a'', (2, [''k'']))], num_servers = 3, proxies = [1, 2], server_id = 0,
        current_term = 1, voted_for = Some 0,
        logs = [(1, (''a'', 1, [''h''])), (1, (''a'', 2, [''k'']))], commit_index = 2,
        last_applied = 2, lock = False, num_up = 3, is_crashed = False,
        state = Some (Leader [(1, 3), (2, 3)] [(1, 2), (2, 2)])\<rparr>
       = Some (Return [(''a'', (2, [''k'']))])
   \<and> map_of [(''a'', (2::int, [''k'']))] ''a'' = Some (2, [''k''])"
proof -
  let ?t = "\<lparr>surfstore = [(''a'', (2, [''k'']))], num_servers = 3, proxies = [1, 2], server_id = 0,
        current_term = 1, voted_for = Some 0,
        logs = [(1, (''a'', 1, [''h''])), (1, (''a'', 2, [''k'']))], commit_index = 2,
        last_applied = 2, lock = False, num_up = 3, is_crashed = False,
        state = Some (Leader [(1, 3), (2, 3)] [(1, 2), (2, 2)])\<rparr>"
  have "updatefile both_ack leader_a ''a'' 2 [''k'']
          = updatefile_wait (both_ack (snd (updatefile_append leader_a ''a'' 2 [''k'']))) 2 ''a'' 2 [''k'']"
    by (simp add: updatefile_eq leader_a_leads leader_a_unlocked append_a_eq)
  then have u: "updatefile both_ack leader_a ''a'' 2 [''k''] = Some (Return True, ?t)"
    by (simp add: append_a_eq both_ack_eq updatefile_wait_eq isLeader_def
        surf_updatefile_def Let_def)
  have g: "getfileinfomap ?t = Some (Return [(''a'', (2, [''k'']))])"
    by (simp add: getfileinfomap_eq isLeader_def)
  have e: "surfstore ?t = surfstore ?t" by simp
  have n: "map_of (surfstore (both_ack (snd (updatefile_append leader_a ''a'' 2 [''k''])))) ''a''
             \<noteq> Some (2, [''k''])"
    by (simp add: append_a_eq both_ack_eq)
  from updatefile_then_getfileinfomap [OF u g e n] u g show ?thesis by simp
qed

text \<open>The Leader \<open>leader_a\<close> is a reachable state of replica 0 in a cluster of three.\<close>

lemma leader_a_reachable: "reachable [1, 2] 0 3 (leader_a, [])"
proof -
  define g :: replies where "g = map_of [(1, (1, True)), (2, (1, True))]"
  define s2 where "s2 = convert_to_candidate late_0 False"
  define s3 where "s3 = elect_leader s2 g"
  define s4 where "s4 = snd (updatefile_append s3 ''a'' 1 [''h''])"
  define s5 where "s5 = leader_a\<lparr>surfstore := [], last_applied := 0\<rparr>"
  have e2: "s2 =
     \<lparr>surfstore = [], num_servers = 3, proxies = [1, 2], server_id = 0,
      current_term = 0, voted_for = None, logs = [], commit_index = 0,
      last_applied = 0, lock = False, num_up = 1, is_crashed = False,
      state = Some Candidate\<rparr>"
    by (simp add: s2_def late_0_def init_server_def restore_def transit_state_def new_role_def
          convert_to_candidate_def)
  have e3: "s3 =
     \<lparr>surfstore = [], num_servers = 3, proxies = [1, 2], server_id = 0,
      current_term = 1, voted_for = Some 0, logs = [], commit_index = 0,
      last_applied = 0, lock = False, num_up = 1, is_crashed = False,
      state = Some (Leader [(1, 1), (2, 1)] [(1, 0), (2, 0)])\<rparr>"
    by (simp add: s3_def g_def e2 transit_state_def new_role_def elect_leader_def majority_def
          Let_def)
  have e4: "s4 =
     \<lparr>surfstore = [], num_servers = 3, proxies = [1, 2], server_id = 0,
      current_term = 1, voted_for = Some 0, logs = [(1, (''a'', 1, [''h'']))], commit_index = 0,
      last_applied = 0, lock = False, num_up = 1, is_crashed = False,
      state = Some (Leader [(1, 1), (2, 1)] [(1, 0), (2, 0)])\<rparr>"
    by (simp add: s4_def e3 updatefile_append_def isLeader_def)
  have r0: "reachable [1, 2] 0 3 (late_0, [])"
    unfolding late_0_def
    by (rule reachable.after [OF reachable.start], rule step.do_restore) (simp add: init_server_def)
  have r2: "reachable [1, 2] 0 3 (s2, [])"
    unfolding s2_def
    by (rule reachable.after [OF r0], rule step.follower_wakes)
       (simp_all add: late_0_def init_server_def restore_def transit_state_def new_role_def)
  have r3: "reachable [1, 2] 0 3 (s3, [])"
    unfolding s3_def
    by (rule reachable.after [OF r2], rule step.candidate_round) (simp_all add: e2)
  have a: "updatefile_append s3 ''a'' 1 [''h''] = (Return 1, s4)"
    by (simp add: e4) (simp add: e3 updatefile_append_def isLeader_def)
  have r4: "reachable [1, 2] 0 3 (s4, [(1, ''a'', 1, [''h''])])"
    by (rule reachable.after [OF r3], rule step.client_append [OF _ a]) (simp add: e3)
  have rd: "append_entry s4 [(1, 1), (2, 1)] [(1, 0), (2, 0)] g = (Return (), s5)"
    by (simp add: e4 g_def s5_def leader_a_def append_entry_def prev_term_of_def py_get_def
          advance_commit_def py_range_down_def count_matches_def majority_def Let_def upto.simps)
  have r5: "reachable [1, 2] 0 3 (s5, [(1, ''a'', 1, [''h''])])"
    by (rule reachable.after [OF r4], rule step.leader_round [OF _ _ rd]) (simp_all add: e4)
  have w: "updatefile_wait s5 1 ''a'' 1 [''h''] = Some (Return True, leader_a)"
    by (simp add: s5_def leader_a_def updatefile_wait_eq isLeader_def surf_updatefile_def Let_def)
  have "reachable [1, 2] 0 3 (leader_a, remove1 (1, ''a'', 1, [''h'']) [(1, ''a'', 1, [''h''])])"
    by (rule reachable.after [OF r5], rule step.client_wait [OF _ w]) simp
  then show ?thesis by simp
qed

text \<open>
  The claim as the specification words it has no condition on the store. An update that
  repeats the stored version and block list returns False (1 is not the successor of 1),
  and the map read afterwards contains \<open>f \<mapsto> (v, B)\<close> all the same.
\<close>

theorem repeated_update_returns_false:
  "updatefile both_ack leader_a ''a'' 1 [''h''] =
     Some (Return False,
       \<lparr>surfstore = [(''a'', (1, [''h'']))], num_servers = 3, proxies = [1, 2], server_id = 0,
        current_term = 1, voted_for = Some 0,
        logs = [(1, (''a'', 1, [''h''])), (1, (''a'', 1, [''h'']))], commit_index = 2,
        last_applied = 2, lock = False, num_up = 3, is_crashed = False,
        state = Some (Leader [(1, 3), (2, 3)] [(1, 2), (2, 2)])\<rparr>)
   \<and> getfileinfomap
       \<lparr>surfstore = [(''a'', (1, [''h'']))], num_servers = 3, proxies = [1, 2], server_id = 0,
        current_term = 1, voted_for = Some 0,
        logs = [(1, (''a'', 1, [''h''])), (1, (''a'', 1, [''h'']))], commit_index = 2,
        last_applied = 2, lock = False, num_up = 3, is_crashed = False,
        state = Some (Leader [(1, 3), (2, 3)] [(1, 2), (2, 2)])\<rparr>
       = Some (Return [(''a'', (1, [''h'']))])
   \<and> map_of [(''a'', (1::int, [''h'']))] ''a'' = Some (1, [''h''])"
proof -
  have "updatefile both_ack leader_a ''a'' 1 [''h'']
          = updatefile_wait (both_ack (snd (updatefile_append leader_a ''a'' 1 [''h'']))) 2 ''a'' 1 [''h'']"
    by (simp add: updatefile_eq leader_a_leads leader_a_unlocked append_a_eq)
  then show ?thesis
    by (simp add: append_a_eq both_ack_eq updatefile_wait_eq getfileinfomap_eq
        isLeader_def surf_updatefile_def Let_def)
qed

end
